theory Spec2Isabelle
  imports Main "HOL-Library.Multiset" "HOL-Library.Sublist"
begin

section \<open>Runtime parser tables and action decoding (lib/parser.c)\<close>

text \<open>
  The parsing actions decoded from table entries (\<^verbatim>\<open>parser_definitions.h\<close>):
  \<^verbatim>\<open>#define ERROR 0, SHIFT 1, SHIFTREDUCE 2, REDUCE 3, ACCEPT 4\<close>.
\<close>

datatype action = ERROR | SHIFT | SHIFTREDUCE | REDUCE | ACCEPT

definition SHIFT_OFFSET :: int where
  "SHIFT_OFFSET = 10000"


definition MAXCOST :: int where
  "MAXCOST = 99999"

text \<open>
  A C \<^verbatim>\<open>int *\<close> table is a list of integers read at an integer index. A read outside
  the table is undefined behaviour in C; the model reads \<open>xs ! nat i\<close>, and every theorem
  that depends on the value read states the index range it needs.
\<close>

definition rd :: "int list \<Rightarrow> int \<Rightarrow> int" where
  "rd xs i = xs ! nat i"

text \<open>The table part of \<^verbatim>\<open>struct sdt_tables\<close> used by the parser driver.\<close>

record sdt_tables =
  tnumber :: int
  contextn :: int
  defcost :: int
  inscost :: "int list"
  delcost :: "int list"
  lhsymbol :: "int list"
  rhslength :: "int list"
  semantics :: "int list"
  repair :: "int list"
  pbase :: "int list"
  pcheck :: "int list"
  pnext :: "int list"



text \<open>\<^verbatim>\<open>decode_goto(tables, state, token, &entry)\<close> always writes \<^verbatim>\<open>*entry\<close>.\<close>

definition decode_goto :: "sdt_tables \<Rightarrow> int \<Rightarrow> int \<Rightarrow> action \<times> int" where
  "decode_goto tables state token =
     (let next = rd (pnext tables) (rd (pbase tables) state + token) in
      if next > SHIFT_OFFSET then (SHIFT, next - SHIFT_OFFSET)
      else if next > 0 then (SHIFTREDUCE, next)
      else (ACCEPT, 0))"

text \<open>
  A table set for the examples; its parsing tables are replaced by packed ones
  (\<open>load_parser\<close>) where an example decodes.
\<close>

definition ex_tables :: sdt_tables where
  "ex_tables = \<lparr> tnumber = 2, contextn = 0, defcost = 0,
     inscost = [0, 1, 1], delcost = [0, 1, 1],
     lhsymbol = [0, 3], rhslength = [0, 1], semantics = [0, 0],
     repair = [0, 1, 0],
     pbase = [0, 0, 2],
     pcheck = [0, 1, 1, 2, 2],
     pnext = [0, - 10000, 0, 10002, - 1] \<rparr>"

section \<open>Ordered sets of integers and symbols (src/intset.c, src/symbols.c)\<close>

text \<open>
  \<^verbatim>\<open>intset\<close> and \<^verbatim>\<open>symbolset\<close> are both \<^verbatim>\<open>struct dynarray\<close>. The set functions branch
  on \<^verbatim>\<open>set->array\<close> being NULL, so the model keeps that case apart: \<open>Null\<close> is a dynarray
  whose fields are all zero (never allocated, or released by \<^verbatim>\<open>dynfree\<close>), \<open>Arr xs\<close> an
  allocated one whose \<^verbatim>\<open>count\<close> elements in use are \<open>xs\<close>. The capacity \<^verbatim>\<open>size\<close> is
  not modelled: \<^verbatim>\<open>dyncheck(set, size * 2)\<close> runs before every append and the initial sizes
  are positive, so there is always room for the element appended; a failed allocation
  aborts the process in \<^verbatim>\<open>out_of_memory\<close>.
\<close>

datatype 'a dynarray = Null | Arr "'a list"

text \<open>
  \<^verbatim>\<open>struct symbol\<close> with the token values of its union member \<^verbatim>\<open>value.value\<close> as plain
  fields (\<^verbatim>\<open>insert\<close> and \<^verbatim>\<open>delete\<close> are named \<open>insert_cost\<close> and \<open>delete_cost\<close>). The
  hash chain and alias pointers play no part in the functions modelled here.
\<close>

datatype symtype = DEFINITION | TERMINAL | NONTERMINAL

record symbolentry =
  order :: int
  symbol :: string
  type :: symtype
  token :: int
  flags :: int
  precedence :: int
  insert_cost :: int
  delete_cost :: int

fun elems :: "'a dynarray \<Rightarrow> 'a list" where
  "elems Null = []"
| "elems (Arr xs) = xs"

text \<open>The invariant of both kinds of set: strictly increasing keys.\<close>

definition strict_keys :: "('a \<Rightarrow> int) \<Rightarrow> 'a list \<Rightarrow> bool" where
  "strict_keys key xs = sorted_wrt (<) (map key xs)"

text \<open>
  The binary search that opens \<^verbatim>\<open>intset_insert\<close>, \<^verbatim>\<open>intset_delete\<close>, \<^verbatim>\<open>symbolset_insert\<close>
  and \<^verbatim>\<open>symbolset_delete\<close>: \<open>Some i\<close> when the loop leaves through the equal branch at
  index \<open>i\<close>, \<open>None\<close> when it ends with \<open>lower \<ge> upper\<close>. The two families of functions
  differ only in the key compared (the integer itself, or \<^verbatim>\<open>symbol->order\<close>), which is
  the parameter \<open>key\<close>.
\<close>

function bsearch :: "('a \<Rightarrow> int) \<Rightarrow> 'a list \<Rightarrow> int \<Rightarrow> nat \<Rightarrow> nat \<Rightarrow> nat option" where
  "bsearch key xs v lower upper =
     (if lower < upper then
        (let i = lower + (upper - lower) div 2 in
         if v < key (xs ! i) then bsearch key xs v lower i
         else if v > key (xs ! i) then bsearch key xs v (i + 1) upper
         else Some i)
      else None)"
  by pat_completeness auto
termination
  by (relation "measure (\<lambda>(key, xs, v, lower, upper). upper - lower)") auto

declare bsearch.simps [simp del]

text \<open>
  The insertion loop \<^verbatim>\<open>for (i = count; i > 0 && set[i - 1] > value; i--) set[i] = set[i - 1];
  set[i] = value;\<close>. The list has one cell more than the elements in use; that cell is
  written before it is read.
\<close>

function shift_up :: "('a \<Rightarrow> int) \<Rightarrow> 'a list \<Rightarrow> 'a \<Rightarrow> nat \<Rightarrow> 'a list" where
  "shift_up key xs v i =
     (if i > 0 \<and> key (xs ! (i - 1)) > key v
      then shift_up key (xs[i := xs ! (i - 1)]) v (i - 1)
      else xs[i := v])"
  by pat_completeness auto
termination
  by (relation "measure (\<lambda>(key, xs, v, i). i)") auto

declare shift_up.simps [simp del]

text \<open>
  The removal loop \<^verbatim>\<open>while (i < count - 1) { set[i] = set[i + 1]; i++; }\<close>; the caller then
  decrements \<^verbatim>\<open>count\<close>, which is \<open>butlast\<close>.
\<close>

function shift_down :: "'a list \<Rightarrow> nat \<Rightarrow> 'a list" where
  "shift_down xs i =
     (if i + 1 < length xs then shift_down (xs[i := xs ! (i + 1)]) (i + 1) else xs)"
  by pat_completeness auto
termination
  by (relation "measure (\<lambda>(xs, i). length xs - i)") auto

declare shift_down.simps [simp del]

definition set_insert :: "('a \<Rightarrow> int) \<Rightarrow> 'a dynarray \<Rightarrow> 'a \<Rightarrow> 'a dynarray" where
  "set_insert key s v =
     (case s of
        Arr xs \<Rightarrow>
          (case bsearch key xs (key v) 0 (length xs) of
             Some i \<Rightarrow> Arr xs
           | None \<Rightarrow> Arr (shift_up key (xs @ [v]) v (length xs)))
      | Null \<Rightarrow> Arr [v])"

definition set_delete :: "('a \<Rightarrow> int) \<Rightarrow> 'a dynarray \<Rightarrow> 'a \<Rightarrow> 'a dynarray" where
  "set_delete key s v =
     (case s of
        Arr xs \<Rightarrow>
          (case bsearch key xs (key v) 0 (length xs) of
             Some i \<Rightarrow> Arr (butlast (shift_down xs i))
           | None \<Rightarrow> Arr xs)
      | Null \<Rightarrow> Null)"

lemma bsearch_unfold:
  "lower < upper \<Longrightarrow>
   bsearch key xs v lower upper =
     (if v < key (xs ! (lower + (upper - lower) div 2))
      then bsearch key xs v lower (lower + (upper - lower) div 2)
      else if v > key (xs ! (lower + (upper - lower) div 2))
      then bsearch key xs v (lower + (upper - lower) div 2 + 1) upper
      else Some (lower + (upper - lower) div 2))"
  by (subst bsearch.simps) (simp add: Let_def)

lemma bsearch_empty: "\<not> lower < upper \<Longrightarrow> bsearch key xs v lower upper = None"
  by (subst bsearch.simps) simp

lemma bsearch_Some:
  "bsearch key xs v l u = Some i \<Longrightarrow> l \<le> i \<and> i < u \<and> key (xs ! i) = v"
proof (induction key xs v l u rule: bsearch.induct)
  case (1 key xs v lower upper)
  show ?case
  proof (cases "lower < upper")
    case False
    with "1.prems" show ?thesis by (simp add: bsearch_empty)
  next
    case True
    let ?m = "lower + (upper - lower) div 2"
    have m: "lower \<le> ?m" "?m < upper" using True by auto
    note u = bsearch_unfold [OF True, of key xs v]
    consider (lt) "v < key (xs ! ?m)" | (gt) "\<not> v < key (xs ! ?m)" "v > key (xs ! ?m)"
      | (eq) "\<not> v < key (xs ! ?m)" "\<not> v > key (xs ! ?m)" by linarith
    then show ?thesis
    proof cases
      case lt
      with u "1.prems" have "bsearch key xs v lower ?m = Some i" by simp
      from "1.IH"(1) [OF True refl lt this] m show ?thesis by auto
    next
      case gt
      with u "1.prems" have "bsearch key xs v (?m + 1) upper = Some i" by simp
      from "1.IH"(2) [OF True refl gt this] m show ?thesis by auto
    next
      case eq
      with u "1.prems" have "i = ?m" by simp
      moreover from eq have "key (xs ! ?m) = v" by linarith
      ultimately show ?thesis using m by simp
    qed
  qed
qed

lemma strict_keys_nth_mono:
  "strict_keys key xs \<Longrightarrow> i < j \<Longrightarrow> j < length xs \<Longrightarrow> key (xs ! i) < key (xs ! j)"
  unfolding strict_keys_def
  using sorted_wrt_nth_less [of "(<)" "map key xs" i j] by simp

lemma bsearch_None:
  "strict_keys key xs \<Longrightarrow> u \<le> length xs \<Longrightarrow> bsearch key xs v l u = None \<Longrightarrow>
   l \<le> i \<Longrightarrow> i < u \<Longrightarrow> key (xs ! i) \<noteq> v"
proof (induction key xs v l u rule: bsearch.induct)
  case (1 key xs v lower upper)
  have lu: "lower < upper" using "1.prems" by linarith
  let ?m = "lower + (upper - lower) div 2"
  have m: "lower \<le> ?m" "?m < upper" using lu by auto
  note u = bsearch_unfold [OF lu, of key xs v]
  consider (lt) "v < key (xs ! ?m)" | (gt) "\<not> v < key (xs ! ?m)" "v > key (xs ! ?m)"
    | (eq) "\<not> v < key (xs ! ?m)" "\<not> v > key (xs ! ?m)" by linarith
  then show ?case
  proof cases
    case lt
    with u "1.prems"(3) have n: "bsearch key xs v lower ?m = None" by simp
    show ?thesis
    proof (cases "i < ?m")
      case True
      have "?m \<le> length xs" using m "1.prems"(2) by linarith
      from "1.IH"(1) [OF lu refl lt "1.prems"(1) this n "1.prems"(4) True]
      show ?thesis .
    next
      case False
      then have "i = ?m \<or> ?m < i" by linarith
      then have "key (xs ! ?m) \<le> key (xs ! i)"
        using strict_keys_nth_mono [OF "1.prems"(1), of ?m i] "1.prems"(2,5) by auto
      with lt show ?thesis by simp
    qed
  next
    case gt
    with u "1.prems"(3) have n: "bsearch key xs v (?m + 1) upper = None" by simp
    show ?thesis
    proof (cases "?m + 1 \<le> i")
      case True
      from "1.IH"(2) [OF lu refl gt "1.prems"(1,2) n True "1.prems"(5)]
      show ?thesis .
    next
      case False
      then have "i = ?m \<or> i < ?m" by linarith
      then have "key (xs ! i) \<le> key (xs ! ?m)"
        using strict_keys_nth_mono [OF "1.prems"(1), of i ?m] "1.prems"(2) m by auto
      with gt show ?thesis by simp
    qed
  next
    case eq
    with u "1.prems"(3) show ?thesis by simp
  qed
qed

lemma bsearch_found_iff:
  assumes "strict_keys key xs"
  shows "(bsearch key xs v 0 (length xs) = None) = (v \<notin> key ` set xs)"
proof
  assume n: "bsearch key xs v 0 (length xs) = None"
  show "v \<notin> key ` set xs"
  proof
    assume "v \<in> key ` set xs"
    then obtain i where "i < length xs" "key (xs ! i) = v"
      by (auto simp: in_set_conv_nth)
    with bsearch_None [OF assms le_refl n, of i] show False by simp
  qed
next
  assume nin: "v \<notin> key ` set xs"
  show "bsearch key xs v 0 (length xs) = None"
  proof (cases "bsearch key xs v 0 (length xs)")
    case None
    then show ?thesis .
  next
    case (Some i)
    from bsearch_Some [OF Some] have "i < length xs" "key (xs ! i) = v" by auto
    then have "v \<in> key ` set xs" by (metis imageI nth_mem)
    with nin show ?thesis by simp
  qed
qed

lemma shift_down_butlast:
  "i < length xs \<Longrightarrow> butlast (shift_down xs i) = take i xs @ drop (Suc i) xs"
proof (induction xs i rule: shift_down.induct)
  case (1 xs i)
  show ?case
  proof (cases "i + 1 < length xs")
    case True
    have "butlast (shift_down xs i) = butlast (shift_down (xs[i := xs ! (i + 1)]) (i + 1))"
      using True by (subst shift_down.simps) simp
    also have "\<dots> = take (i + 1) (xs[i := xs ! (i + 1)]) @ drop (Suc (i + 1)) (xs[i := xs ! (i + 1)])"
      using "1.IH" [OF True] True by simp
    also have "take (i + 1) (xs[i := xs ! (i + 1)]) = take i xs @ [xs ! (i + 1)]"
      using True by (simp add: take_Suc_conv_app_nth)
    also have "drop (Suc (i + 1)) (xs[i := xs ! (i + 1)]) = drop (Suc (i + 1)) xs"
      by simp
    finally show ?thesis
      using True by (simp add: Cons_nth_drop_Suc)
  next
    case False
    with "1.prems" have i: "Suc i = length xs" by linarith
    have "shift_down xs i = xs" using False by (subst shift_down.simps) simp
    moreover have "length xs - 1 = i" using i by linarith
    ultimately show ?thesis using i by (simp add: butlast_conv_take)
  qed
qed

lemma shift_up_split:
  "i \<le> length orig \<Longrightarrow> \<forall>y \<in> set (drop i orig). key y > key v \<Longrightarrow>
   \<exists>j \<le> i. shift_up key (take i orig @ x # drop i orig) v i = take j orig @ v # drop j orig
      \<and> (\<forall>y \<in> set (drop j orig). key y > key v)
      \<and> (j > 0 \<longrightarrow> \<not> key (orig ! (j - 1)) > key v)"
proof (induction i arbitrary: x)
  case 0
  have "shift_up key (x # orig) v 0 = v # orig"
    by (subst shift_up.simps) simp
  with 0 show ?case by auto
next
  case (Suc i)
  let ?xs = "take (Suc i) orig @ x # drop (Suc i) orig"
  have i: "i < length orig" using Suc.prems by simp
  have nth: "?xs ! i = orig ! i" using i by (simp add: nth_append)
  show ?case
  proof (cases "key (orig ! i) > key v")
    case True
    have upd: "?xs[Suc i := ?xs ! i] = take i orig @ (orig ! i) # drop i orig"
      using i nth
      by (simp add: list_update_append take_Suc_conv_app_nth Cons_nth_drop_Suc)
    have "shift_up key ?xs v (Suc i) = shift_up key (take i orig @ (orig ! i) # drop i orig) v i"
      using True nth upd by (subst shift_up.simps) simp
    moreover have "\<forall>y \<in> set (drop i orig). key y > key v"
      using True Suc.prems(2) i by (simp add: Cons_nth_drop_Suc [symmetric])
    ultimately show ?thesis
      using Suc.IH [of "orig ! i"] i by (metis le_SucI less_imp_le_nat)
  next
    case False
    have "shift_up key ?xs v (Suc i) = ?xs[Suc i := v]"
      using False nth by (subst shift_up.simps) simp
    also have "\<dots> = take (Suc i) orig @ v # drop (Suc i) orig"
      using i by (simp add: list_update_append)
    finally show ?thesis using False Suc.prems(2) by auto
  qed
qed

lemma strict_keys_insert_at:
  assumes s: "strict_keys key orig"
    and hi: "\<forall>y \<in> set (drop j orig). key y > key v"
    and lo: "\<forall>y \<in> set (take j orig). key y < key v"
  shows "strict_keys key (take j orig @ v # drop j orig)"
proof -
  have "sorted_wrt (<) (map key (take j orig @ drop j orig))"
    using s by (simp add: strict_keys_def)
  then have a: "sorted_wrt (<) (map key (take j orig))" "sorted_wrt (<) (map key (drop j orig))"
    "\<forall>x\<in>set (take j orig). \<forall>y\<in>set (drop j orig). key x < key y"
    by (auto simp: sorted_wrt_append simp del: append_take_drop_id)
  show ?thesis
    unfolding strict_keys_def using a hi lo
    by (auto simp: sorted_wrt_append)
qed

lemma set_insert_correct:
  assumes s: "strict_keys key (elems a)"
  shows "strict_keys key (elems (set_insert key a v))
       \<and> key ` set (elems (set_insert key a v)) = insert (key v) (key ` set (elems a))
       \<and> (key v \<notin> key ` set (elems a) \<longrightarrow>
            set (elems (set_insert key a v)) = insert v (set (elems a)))
       \<and> (key v \<in> key ` set (elems a) \<longrightarrow> elems (set_insert key a v) = elems a)"
proof (cases a)
  case Null
  then show ?thesis by (simp add: set_insert_def strict_keys_def)
next
  case (Arr xs)
  with s have sx: "strict_keys key xs" by simp
  show ?thesis
  proof (cases "bsearch key xs (key v) 0 (length xs)")
    case (Some i)
    then have "key v \<in> key ` set xs"
      using bsearch_found_iff [OF sx, of "key v"] by simp
    with Some Arr sx show ?thesis by (auto simp: set_insert_def)
  next
    case None
    then have nin: "key v \<notin> key ` set xs"
      using bsearch_found_iff [OF sx, of "key v"] by simp
    have "\<exists>j \<le> length xs. shift_up key (take (length xs) xs @ v # drop (length xs) xs) v (length xs)
            = take j xs @ v # drop j xs
          \<and> (\<forall>y \<in> set (drop j xs). key y > key v)
          \<and> (j > 0 \<longrightarrow> \<not> key (xs ! (j - 1)) > key v)"
      by (rule shift_up_split) simp_all
    then obtain j where j: "j \<le> length xs"
      and res: "shift_up key (xs @ [v]) v (length xs) = take j xs @ v # drop j xs"
      and hi: "\<forall>y \<in> set (drop j xs). key y > key v"
      and lo1: "j > 0 \<longrightarrow> \<not> key (xs ! (j - 1)) > key v"
      by auto
    have lo: "\<forall>y \<in> set (take j xs). key y < key v"
    proof
      fix y assume "y \<in> set (take j xs)"
      then obtain k where k: "k < j" "y = xs ! k"
        using j by (auto simp: in_set_conv_nth)
      have "key (xs ! k) \<le> key (xs ! (j - 1))"
      proof (cases "k = j - 1")
        case True
        then show ?thesis by simp
      next
        case False
        with k have "k < j - 1" "j - 1 < length xs" using j by linarith+
        from strict_keys_nth_mono [OF sx this] show ?thesis by simp
      qed
      moreover have "key (xs ! (j - 1)) \<le> key v" using lo1 k by auto
      moreover have "key (xs ! k) \<noteq> key v"
      proof
        assume "key (xs ! k) = key v"
        moreover have "xs ! k \<in> set xs" using k j by simp
        ultimately have "key v \<in> key ` set xs" by (metis imageI)
        with nin show False by simp
      qed
      ultimately show "key y < key v" using k by simp
    qed
    have "set (take j xs @ v # drop j xs) = insert v (set (take j xs @ drop j xs))"
      by (simp del: append_take_drop_id)
    then have st: "set (take j xs @ v # drop j xs) = insert v (set xs)" by simp
    from strict_keys_insert_at [OF sx hi lo] res None Arr st nin
    show ?thesis by (simp add: set_insert_def)
  qed
qed

lemma strict_keys_remove_at:
  assumes s: "strict_keys key xs" and i: "i < length xs"
  shows "strict_keys key (take i xs @ drop (Suc i) xs)
       \<and> set (take i xs @ drop (Suc i) xs) = set xs - {xs ! i}
       \<and> key ` set (take i xs @ drop (Suc i) xs) = key ` set xs - {key (xs ! i)}"
proof -
  have xs: "xs = take i xs @ xs ! i # drop (Suc i) xs"
    using i by (simp add: id_take_nth_drop)
  have "sorted_wrt (<) (map key (take i xs @ xs ! i # drop (Suc i) xs))"
    using s xs by (simp add: strict_keys_def)
  then have a: "sorted_wrt (<) (map key (take i xs))" "sorted_wrt (<) (map key (drop (Suc i) xs))"
    "\<forall>x\<in>set (take i xs). key x < key (xs ! i)"
    "\<forall>y\<in>set (drop (Suc i) xs). key (xs ! i) < key y"
    by (auto simp: sorted_wrt_append)
  have b: "set xs = set (take i xs) \<union> {xs ! i} \<union> set (drop (Suc i) xs)"
    by (subst xs) auto
  have cross: "\<forall>x\<in>set (take i xs). \<forall>y\<in>set (drop (Suc i) xs). key x < key y"
  proof (intro ballI)
    fix x y assume "x \<in> set (take i xs)" "y \<in> set (drop (Suc i) xs)"
    with a(3,4) have "key x < key (xs ! i)" "key (xs ! i) < key y" by blast+
    then show "key x < key y" by (rule less_trans)
  qed
  have n1: "xs ! i \<notin> set (take i xs)"
  proof
    assume "xs ! i \<in> set (take i xs)"
    with a(3) have "key (xs ! i) < key (xs ! i)" by blast
    then show False by simp
  qed
  have n2: "xs ! i \<notin> set (drop (Suc i) xs)"
  proof
    assume "xs ! i \<in> set (drop (Suc i) xs)"
    with a(4) have "key (xs ! i) < key (xs ! i)" by blast
    then show False by simp
  qed
  have k1: "key (xs ! i) \<notin> key ` set (take i xs)"
  proof
    assume "key (xs ! i) \<in> key ` set (take i xs)"
    then obtain x where "x \<in> set (take i xs)" "key x = key (xs ! i)" by (metis imageE)
    with a(3) have "key (xs ! i) < key (xs ! i)" by metis
    then show False by simp
  qed
  have k2: "key (xs ! i) \<notin> key ` set (drop (Suc i) xs)"
  proof
    assume "key (xs ! i) \<in> key ` set (drop (Suc i) xs)"
    then obtain x where "x \<in> set (drop (Suc i) xs)" "key x = key (xs ! i)" by (metis imageE)
    with a(4) have "key (xs ! i) < key (xs ! i)" by metis
    then show False by simp
  qed
  have "strict_keys key (take i xs @ drop (Suc i) xs)"
    unfolding strict_keys_def using a(1,2) cross by (simp add: sorted_wrt_append)
  moreover have "set (take i xs @ drop (Suc i) xs) = set xs - {xs ! i}"
    using b n1 n2 by (simp only: set_append) blast
  moreover have "key ` set (take i xs @ drop (Suc i) xs) = key ` set xs - {key (xs ! i)}"
  proof -
    have "key ` set xs = key ` set (take i xs) \<union> {key (xs ! i)} \<union> key ` set (drop (Suc i) xs)"
      by (subst b) (simp add: image_Un)
    with k1 k2 show ?thesis by (simp only: set_append image_Un) blast
  qed
  ultimately show ?thesis by simp
qed

lemma set_delete_correct:
  assumes s: "strict_keys key (elems a)"
  shows "strict_keys key (elems (set_delete key a v))
       \<and> key ` set (elems (set_delete key a v)) = key ` set (elems a) - {key v}
       \<and> set (elems (set_delete key a v)) = {x \<in> set (elems a). key x \<noteq> key v}"
proof (cases a)
  case Null
  then show ?thesis by (simp add: set_delete_def strict_keys_def)
next
  case (Arr xs)
  with s have sx: "strict_keys key xs" by simp
  show ?thesis
  proof (cases "bsearch key xs (key v) 0 (length xs)")
    case None
    then have nin: "key v \<notin> key ` set xs"
      using bsearch_found_iff [OF sx, of "key v"] by simp
    then have "\<And>x. x \<in> set xs \<Longrightarrow> key x \<noteq> key v" by (metis imageI)
    then have "{x \<in> set xs. key x \<noteq> key v} = set xs" by blast
    with None Arr sx nin show ?thesis by (simp add: set_delete_def)
  next
    case (Some i)
    from bsearch_Some [OF Some] have i: "i < length xs" "key (xs ! i) = key v" by auto
    have inj: "\<And>x. x \<in> set xs \<Longrightarrow> key x = key v \<Longrightarrow> x = xs ! i"
    proof -
      fix x assume "x \<in> set xs" "key x = key v"
      then obtain k where k: "k < length xs" "x = xs ! k" "key (xs ! k) = key v"
        by (auto simp: in_set_conv_nth)
      have "k = i"
      proof (rule ccontr)
        assume "k \<noteq> i"
        then consider "k < i" | "i < k" by linarith
        then show False
        proof cases
          case 1
          from strict_keys_nth_mono [OF sx 1 i(1)] k i show False by simp
        next
          case 2
          from strict_keys_nth_mono [OF sx 2 k(1)] k i show False by simp
        qed
      qed
      with k show "x = xs ! i" by simp
    qed
    have f: "{x \<in> set xs. key x \<noteq> key v} = set xs - {xs ! i}"
      using inj i by auto
    define zs where "zs = take i xs @ drop (Suc i) xs"
    have e: "elems (set_delete key a v) = zs"
      using shift_down_butlast [OF i(1)] Some Arr by (simp add: set_delete_def zs_def)
    from strict_keys_remove_at [OF sx i(1)]
    have "strict_keys key zs" "set zs = set xs - {xs ! i}"
      "key ` set zs = key ` set xs - {key (xs ! i)}"
      unfolding zs_def by blast+
    with e f i(2) Arr show ?thesis by simp
  qed
qed

subsection \<open>Union: the merge loops of \<^verbatim>\<open>intset_union\<close> and \<^verbatim>\<open>symbolset_union\<close>\<close>

text \<open>
  The first and the third inner \<^verbatim>\<open>while\<close> loops of the merge, then one pass of the outer
  loop body (\<open>union_body\<close>), the outer loop and the two loops that copy what remains.
\<close>

function union_copy1 :: "('a \<Rightarrow> int) \<Rightarrow> 'a list \<Rightarrow> 'a list \<Rightarrow> nat \<Rightarrow> nat \<Rightarrow> 'a list \<Rightarrow> nat \<times> 'a list" where
  "union_copy1 key s1 s2 i1 i2 dst =
     (if i1 < length s1 \<and> key (s1 ! i1) < key (s2 ! i2)
      then union_copy1 key s1 s2 (i1 + 1) i2 (dst @ [s1 ! i1])
      else (i1, dst))"
  by pat_completeness auto
termination
  by (relation "measure (\<lambda>(key, s1, s2, i1, i2, dst). length s1 - i1)") auto

declare union_copy1.simps [simp del]

function union_copy2 :: "('a \<Rightarrow> int) \<Rightarrow> 'a list \<Rightarrow> 'a list \<Rightarrow> nat \<Rightarrow> nat \<Rightarrow> 'a list \<Rightarrow> nat \<times> 'a list" where
  "union_copy2 key s1 s2 i1 i2 dst =
     (if i1 < length s1 \<and> i2 < length s2 \<and> key (s2 ! i2) < key (s1 ! i1)
      then union_copy2 key s1 s2 i1 (i2 + 1) (dst @ [s2 ! i2])
      else (i2, dst))"
  by pat_completeness auto
termination
  by (relation "measure (\<lambda>(key, s1, s2, i1, i2, dst). length s2 - i2)") auto

declare union_copy2.simps [simp del]

definition union_body :: "('a \<Rightarrow> int) \<Rightarrow> 'a list \<Rightarrow> 'a list \<Rightarrow> nat \<Rightarrow> nat \<Rightarrow> 'a list \<Rightarrow> nat \<times> nat \<times> 'a list" where
  "union_body key s1 s2 i1 i2 dst =
     (case union_copy1 key s1 s2 i1 i2 dst of (i1a, d1) \<Rightarrow>
        (case (if i1a < length s1 \<and> key (s1 ! i1a) = key (s2 ! i2)
               then (i1a + 1, i2 + 1, d1 @ [s1 ! i1a]) else (i1a, i2, d1)) of
           (i1b, i2b, d2) \<Rightarrow>
             (case union_copy2 key s1 s2 i1b i2b d2 of (i2c, d3) \<Rightarrow> (i1b, i2c, d3))))"

text \<open>
  A reference merge on lists, used to state what the index loops compute.
\<close>

fun merge_union :: "('a \<Rightarrow> int) \<Rightarrow> 'a list \<Rightarrow> 'a list \<Rightarrow> 'a list" where
  "merge_union key [] ys = ys"
| "merge_union key xs [] = xs"
| "merge_union key (x # xs) (y # ys) =
     (if key x < key y then x # merge_union key xs (y # ys)
      else if key x = key y then x # merge_union key xs ys
      else y # merge_union key (x # xs) ys)"

lemma merge_union_Nil2 [simp]: "merge_union key xs [] = xs"
  by (cases xs) simp_all

lemma union_copy1_step:
  "i1 < length s1 \<and> key (s1 ! i1) < key (s2 ! i2) \<Longrightarrow>
   union_copy1 key s1 s2 i1 i2 dst = union_copy1 key s1 s2 (i1 + 1) i2 (dst @ [s1 ! i1])"
  by (subst union_copy1.simps) simp

lemma union_copy1_stop:
  "\<not> (i1 < length s1 \<and> key (s1 ! i1) < key (s2 ! i2)) \<Longrightarrow>
   union_copy1 key s1 s2 i1 i2 dst = (i1, dst)"
  by (subst union_copy1.simps) auto

lemma union_copy2_step:
  "i1 < length s1 \<and> i2 < length s2 \<and> key (s2 ! i2) < key (s1 ! i1) \<Longrightarrow>
   union_copy2 key s1 s2 i1 i2 dst = union_copy2 key s1 s2 i1 (i2 + 1) (dst @ [s2 ! i2])"
  by (subst union_copy2.simps) simp

lemma union_copy2_stop:
  "\<not> (i1 < length s1 \<and> i2 < length s2 \<and> key (s2 ! i2) < key (s1 ! i1)) \<Longrightarrow>
   union_copy2 key s1 s2 i1 i2 dst = (i2, dst)"
  by (subst union_copy2.simps) auto

lemma union_copy1_spec:
  "i2 < length s2 \<Longrightarrow> union_copy1 key s1 s2 i1 i2 dst = (i1', d) \<Longrightarrow>
   i1 \<le> i1' \<and> (i1 \<le> length s1 \<longrightarrow> i1' \<le> length s1)
   \<and> (i1' < length s1 \<longrightarrow> \<not> key (s1 ! i1') < key (s2 ! i2))
   \<and> d @ merge_union key (drop i1' s1) (drop i2 s2) = dst @ merge_union key (drop i1 s1) (drop i2 s2)"
proof (induction key s1 s2 i1 i2 dst rule: union_copy1.induct)
  case (1 key s1 s2 i1 i2 dst)
  show ?case
  proof (cases "i1 < length s1 \<and> key (s1 ! i1) < key (s2 ! i2)")
    case True
    have r: "union_copy1 key s1 s2 (i1 + 1) i2 (dst @ [s1 ! i1]) = (i1', d)"
      using "1.prems"(2) union_copy1_step [OF True] by simp
    have m: "merge_union key (drop i1 s1) (drop i2 s2)
             = s1 ! i1 # merge_union key (drop (i1 + 1) s1) (drop i2 s2)"
      using True "1.prems"(1)
      by (simp add: Cons_nth_drop_Suc [symmetric])
    from "1.IH" [OF True "1.prems"(1) r] True m show ?thesis by auto
  next
    case False
    have "(i1', d) = (i1, dst)"
      using "1.prems"(2) union_copy1_stop [OF False] by simp
    with False show ?thesis by auto
  qed
qed

lemma union_copy2_spec:
  "i1 \<le> length s1 \<Longrightarrow> union_copy2 key s1 s2 i1 i2 dst = (i2', d) \<Longrightarrow>
   i2 \<le> i2' \<and> (i2 \<le> length s2 \<longrightarrow> i2' \<le> length s2)
   \<and> (i1 < length s1 \<and> i2 < length s2 \<and> key (s2 ! i2) < key (s1 ! i1) \<longrightarrow> i2 < i2')
   \<and> d @ merge_union key (drop i1 s1) (drop i2' s2) = dst @ merge_union key (drop i1 s1) (drop i2 s2)"
proof (induction key s1 s2 i1 i2 dst rule: union_copy2.induct)
  case (1 key s1 s2 i1 i2 dst)
  show ?case
  proof (cases "i1 < length s1 \<and> i2 < length s2 \<and> key (s2 ! i2) < key (s1 ! i1)")
    case True
    have r: "union_copy2 key s1 s2 i1 (i2 + 1) (dst @ [s2 ! i2]) = (i2', d)"
      using "1.prems"(2) union_copy2_step [OF True] by simp
    have m: "merge_union key (drop i1 s1) (drop i2 s2)
             = s2 ! i2 # merge_union key (drop i1 s1) (drop (i2 + 1) s2)"
      using True
      by (simp add: Cons_nth_drop_Suc [symmetric])
    from "1.IH" [OF True "1.prems"(1) r] True m show ?thesis by auto
  next
    case False
    have "(i2', d) = (i2, dst)"
      using "1.prems"(2) union_copy2_stop [OF False] by simp
    with False show ?thesis by auto
  qed
qed

lemma union_body_spec:
  assumes "i1 < length s1" "i2 < length s2"
    and "union_body key s1 s2 i1 i2 dst = (i1', i2', d)"
  shows "i1 \<le> i1' \<and> i1' \<le> length s1 \<and> i2 \<le> i2' \<and> i2' \<le> length s2
       \<and> i1 + i2 < i1' + i2'
       \<and> d @ merge_union key (drop i1' s1) (drop i2' s2) = dst @ merge_union key (drop i1 s1) (drop i2 s2)"
proof -
  obtain i1a d1 where c1: "union_copy1 key s1 s2 i1 i2 dst = (i1a, d1)"
    by (cases "union_copy1 key s1 s2 i1 i2 dst")
  from union_copy1_spec [OF assms(2) c1] assms(1)
  have a: "i1 \<le> i1a" "i1a \<le> length s1"
    "i1a < length s1 \<longrightarrow> \<not> key (s1 ! i1a) < key (s2 ! i2)"
    "d1 @ merge_union key (drop i1a s1) (drop i2 s2) = dst @ merge_union key (drop i1 s1) (drop i2 s2)"
    by auto
  show ?thesis
  proof (cases "i1a < length s1 \<and> key (s1 ! i1a) = key (s2 ! i2)")
    case True
    obtain i2c d3 where c2: "union_copy2 key s1 s2 (i1a + 1) (i2 + 1) (d1 @ [s1 ! i1a]) = (i2c, d3)"
      by (cases "union_copy2 key s1 s2 (i1a + 1) (i2 + 1) (d1 @ [s1 ! i1a])")
    have le: "i1a + 1 \<le> length s1" using True by simp
    from union_copy2_spec [OF le c2] assms(2)
    have b: "i2 + 1 \<le> i2c" "i2c \<le> length s2"
      "d3 @ merge_union key (drop (i1a + 1) s1) (drop i2c s2)
       = (d1 @ [s1 ! i1a]) @ merge_union key (drop (i1a + 1) s1) (drop (i2 + 1) s2)"
      by auto
    have m: "merge_union key (drop i1a s1) (drop i2 s2)
             = s1 ! i1a # merge_union key (drop (i1a + 1) s1) (drop (i2 + 1) s2)"
      using True assms(2) by (simp add: Cons_nth_drop_Suc [symmetric])
    have "union_body key s1 s2 i1 i2 dst = (i1a + 1, i2c, d3)"
      using c2 by (simp add: union_body_def c1 True)
    with assms(3) have r: "(i1', i2', d) = (i1a + 1, i2c, d3)" by simp
    with a b m le show ?thesis by auto
  next
    case False
    obtain i2c d3 where c2: "union_copy2 key s1 s2 i1a i2 d1 = (i2c, d3)"
      by (cases "union_copy2 key s1 s2 i1a i2 d1")
    from union_copy2_spec [OF a(2) c2] assms(2)
    have b: "i2 \<le> i2c" "i2c \<le> length s2"
      "i1a < length s1 \<and> key (s2 ! i2) < key (s1 ! i1a) \<longrightarrow> i2 < i2c"
      "d3 @ merge_union key (drop i1a s1) (drop i2c s2)
       = d1 @ merge_union key (drop i1a s1) (drop i2 s2)"
      by auto
    have "union_body key s1 s2 i1 i2 dst = (i1a, i2c, d3)"
      using False c2 by (auto simp add: union_body_def c1)
    with assms(3) have r: "(i1', i2', d) = (i1a, i2c, d3)" by simp
    have prog: "i1 < i1a \<or> i2 < i2c"
    proof (cases "i1 < i1a")
      case True
      then show ?thesis by simp
    next
      case f: False
      with a(1) have "i1a = i1" by simp
      with assms(1) a(3) False have "key (s2 ! i2) < key (s1 ! i1a)" by auto
      with b(3) assms(1) \<open>i1a = i1\<close> show ?thesis by simp
    qed
    with r a b show ?thesis by auto
  qed
qed

function union_loop :: "('a \<Rightarrow> int) \<Rightarrow> 'a list \<Rightarrow> 'a list \<Rightarrow> nat \<Rightarrow> nat \<Rightarrow> 'a list \<Rightarrow> nat \<times> nat \<times> 'a list" where
  "union_loop key s1 s2 i1 i2 dst =
     (if i1 < length s1 \<and> i2 < length s2
      then (case union_body key s1 s2 i1 i2 dst of
              (i1', i2', dst') \<Rightarrow> union_loop key s1 s2 i1' i2' dst')
      else (i1, i2, dst))"
  by pat_completeness auto
termination
proof (relation "measure (\<lambda>(key, s1, s2, i1, i2, dst). (length s1 - i1) + (length s2 - i2))", goal_cases)
  case 1
  show ?case by simp
next
  case (2 key s1 s2 i1 i2 dst x y xa ya)
  then have "union_body key s1 s2 i1 i2 dst = (x, xa, ya)" by simp
  from union_body_spec [OF _ _ this] 2(1) show ?case by auto
qed

declare union_loop.simps [simp del]

function copy_rest :: "'a list \<Rightarrow> nat \<Rightarrow> 'a list \<Rightarrow> 'a list" where
  "copy_rest s i dst = (if i < length s then copy_rest s (i + 1) (dst @ [s ! i]) else dst)"
  by pat_completeness auto
termination
  by (relation "measure (\<lambda>(s, i, dst). length s - i)") auto

declare copy_rest.simps [simp del]

definition set_union :: "('a \<Rightarrow> int) \<Rightarrow> 'a dynarray \<Rightarrow> 'a dynarray \<Rightarrow> 'a dynarray" where
  "set_union key src1 src2 =
     (case src1 of
        Arr s1 \<Rightarrow>
          (case src2 of
             Arr s2 \<Rightarrow>
               (case union_loop key s1 s2 0 0 [] of
                  (i1, i2, dst) \<Rightarrow> Arr (copy_rest s2 i2 (copy_rest s1 i1 dst)))
           | Null \<Rightarrow> Arr s1)
      | Null \<Rightarrow> (case src2 of Arr s2 \<Rightarrow> Arr s2 | Null \<Rightarrow> Arr []))"

lemma copy_rest_eq: "copy_rest s i dst = dst @ drop i s"
proof (induction s i dst rule: copy_rest.induct)
  case (1 s i dst)
  show ?case
  proof (cases "i < length s")
    case True
    have "copy_rest s i dst = copy_rest s (i + 1) (dst @ [s ! i])"
      using True by (subst copy_rest.simps) simp
    with "1.IH" [OF True] True show ?thesis
      by (simp add: Cons_nth_drop_Suc)
  next
    case False
    then show ?thesis by (subst copy_rest.simps) simp
  qed
qed

lemma union_loop_spec:
  "i1 \<le> length s1 \<Longrightarrow> i2 \<le> length s2 \<Longrightarrow> union_loop key s1 s2 i1 i2 dst = (j1, j2, d) \<Longrightarrow>
   d @ drop j1 s1 @ drop j2 s2 = dst @ merge_union key (drop i1 s1) (drop i2 s2)"
proof (induction key s1 s2 i1 i2 dst rule: union_loop.induct)
  case (1 key s1 s2 i1 i2 dst)
  show ?case
  proof (cases "i1 < length s1 \<and> i2 < length s2")
    case True
    obtain i1' i2' dst' where b: "union_body key s1 s2 i1 i2 dst = (i1', i2', dst')"
      by (cases "union_body key s1 s2 i1 i2 dst")
    have "union_loop key s1 s2 i1 i2 dst = union_loop key s1 s2 i1' i2' dst'"
      using True b by (subst union_loop.simps) simp
    with "1.prems"(3) have r: "union_loop key s1 s2 i1' i2' dst' = (j1, j2, d)" by simp
    from union_body_spec [OF _ _ b] True
    have s: "i1' \<le> length s1" "i2' \<le> length s2"
      "dst' @ merge_union key (drop i1' s1) (drop i2' s2) = dst @ merge_union key (drop i1 s1) (drop i2 s2)"
      by auto
    from "1.IH" [OF True b [symmetric] refl s(1,2) r] s(3) show ?thesis by simp
  next
    case False
    have "union_loop key s1 s2 i1 i2 dst = (i1, i2, dst)"
      using False by (subst union_loop.simps) auto
    with "1.prems"(3) have e: "(j1, j2, d) = (i1, i2, dst)" by simp
    from False "1.prems"(1,2) have "i1 = length s1 \<or> i2 = length s2" by linarith
    with e show ?thesis by auto
  qed
qed

lemma set_union_Arr:
  "set_union key (Arr s1) (Arr s2) = Arr (merge_union key s1 s2)"
proof -
  obtain j1 j2 d where l: "union_loop key s1 s2 0 0 [] = (j1, j2, d)"
    by (cases "union_loop key s1 s2 0 0 []")
  from union_loop_spec [OF _ _ l] have "d @ drop j1 s1 @ drop j2 s2 = merge_union key s1 s2"
    by simp
  with l show ?thesis by (simp add: set_union_def copy_rest_eq)
qed

subsection \<open>Intersection: the loops of \<^verbatim>\<open>intset_intersect\<close> and \<^verbatim>\<open>symbolset_intersect\<close>\<close>

function inter_skip1 :: "('a \<Rightarrow> int) \<Rightarrow> 'a list \<Rightarrow> 'a list \<Rightarrow> nat \<Rightarrow> nat \<Rightarrow> nat" where
  "inter_skip1 key s1 s2 i1 i2 =
     (if i1 < length s1 \<and> key (s1 ! i1) < key (s2 ! i2)
      then inter_skip1 key s1 s2 (i1 + 1) i2
      else i1)"
  by pat_completeness auto
termination
  by (relation "measure (\<lambda>(key, s1, s2, i1, i2). length s1 - i1)") auto

declare inter_skip1.simps [simp del]

function inter_skip2 :: "('a \<Rightarrow> int) \<Rightarrow> 'a list \<Rightarrow> 'a list \<Rightarrow> nat \<Rightarrow> nat \<Rightarrow> nat" where
  "inter_skip2 key s1 s2 i1 i2 =
     (if i1 < length s1 \<and> i2 < length s2 \<and> key (s2 ! i2) < key (s1 ! i1)
      then inter_skip2 key s1 s2 i1 (i2 + 1)
      else i2)"
  by pat_completeness auto
termination
  by (relation "measure (\<lambda>(key, s1, s2, i1, i2). length s2 - i2)") auto

declare inter_skip2.simps [simp del]

definition inter_body :: "('a \<Rightarrow> int) \<Rightarrow> 'a list \<Rightarrow> 'a list \<Rightarrow> nat \<Rightarrow> nat \<Rightarrow> 'a list \<Rightarrow> nat \<times> nat \<times> 'a list" where
  "inter_body key s1 s2 i1 i2 dst =
     (let i1a = inter_skip1 key s1 s2 i1 i2 in
        (case (if i1a < length s1 \<and> key (s1 ! i1a) = key (s2 ! i2)
               then (i1a + 1, i2 + 1, dst @ [s1 ! i1a]) else (i1a, i2, dst)) of
           (i1b, i2b, d2) \<Rightarrow> (i1b, inter_skip2 key s1 s2 i1b i2b, d2)))"

fun merge_inter :: "('a \<Rightarrow> int) \<Rightarrow> 'a list \<Rightarrow> 'a list \<Rightarrow> 'a list" where
  "merge_inter key [] ys = []"
| "merge_inter key xs [] = []"
| "merge_inter key (x # xs) (y # ys) =
     (if key x < key y then merge_inter key xs (y # ys)
      else if key x = key y then x # merge_inter key xs ys
      else merge_inter key (x # xs) ys)"

lemma merge_inter_Nil2 [simp]: "merge_inter key xs [] = []"
  by (cases xs) simp_all

lemma inter_skip1_step:
  "i1 < length s1 \<and> key (s1 ! i1) < key (s2 ! i2) \<Longrightarrow>
   inter_skip1 key s1 s2 i1 i2 = inter_skip1 key s1 s2 (i1 + 1) i2"
  by (subst inter_skip1.simps) simp

lemma inter_skip1_stop:
  "\<not> (i1 < length s1 \<and> key (s1 ! i1) < key (s2 ! i2)) \<Longrightarrow>
   inter_skip1 key s1 s2 i1 i2 = i1"
  by (subst inter_skip1.simps) auto

lemma inter_skip2_step:
  "i1 < length s1 \<and> i2 < length s2 \<and> key (s2 ! i2) < key (s1 ! i1) \<Longrightarrow>
   inter_skip2 key s1 s2 i1 i2 = inter_skip2 key s1 s2 i1 (i2 + 1)"
  by (subst inter_skip2.simps) simp

lemma inter_skip2_stop:
  "\<not> (i1 < length s1 \<and> i2 < length s2 \<and> key (s2 ! i2) < key (s1 ! i1)) \<Longrightarrow>
   inter_skip2 key s1 s2 i1 i2 = i2"
  by (subst inter_skip2.simps) auto

lemma inter_skip1_spec:
  "i2 < length s2 \<Longrightarrow>
   i1 \<le> inter_skip1 key s1 s2 i1 i2
   \<and> (i1 \<le> length s1 \<longrightarrow> inter_skip1 key s1 s2 i1 i2 \<le> length s1)
   \<and> (inter_skip1 key s1 s2 i1 i2 < length s1 \<longrightarrow>
        \<not> key (s1 ! inter_skip1 key s1 s2 i1 i2) < key (s2 ! i2))
   \<and> merge_inter key (drop (inter_skip1 key s1 s2 i1 i2) s1) (drop i2 s2)
       = merge_inter key (drop i1 s1) (drop i2 s2)"
proof (induction key s1 s2 i1 i2 rule: inter_skip1.induct)
  case (1 key s1 s2 i1 i2)
  show ?case
  proof (cases "i1 < length s1 \<and> key (s1 ! i1) < key (s2 ! i2)")
    case True
    have m: "merge_inter key (drop i1 s1) (drop i2 s2)
             = merge_inter key (drop (i1 + 1) s1) (drop i2 s2)"
      using True "1.prems"
      by (simp add: Cons_nth_drop_Suc [symmetric])
    from "1.IH" [OF True "1.prems"] True m inter_skip1_step [OF True]
    show ?thesis by auto
  next
    case False
    with inter_skip1_stop [OF False] show ?thesis by auto
  qed
qed

lemma inter_skip2_spec:
  "i1 \<le> length s1 \<Longrightarrow>
   i2 \<le> inter_skip2 key s1 s2 i1 i2
   \<and> (i2 \<le> length s2 \<longrightarrow> inter_skip2 key s1 s2 i1 i2 \<le> length s2)
   \<and> (i1 < length s1 \<and> i2 < length s2 \<and> key (s2 ! i2) < key (s1 ! i1) \<longrightarrow>
        i2 < inter_skip2 key s1 s2 i1 i2)
   \<and> merge_inter key (drop i1 s1) (drop (inter_skip2 key s1 s2 i1 i2) s2)
       = merge_inter key (drop i1 s1) (drop i2 s2)"
proof (induction key s1 s2 i1 i2 rule: inter_skip2.induct)
  case (1 key s1 s2 i1 i2)
  show ?case
  proof (cases "i1 < length s1 \<and> i2 < length s2 \<and> key (s2 ! i2) < key (s1 ! i1)")
    case True
    have m: "merge_inter key (drop i1 s1) (drop i2 s2)
             = merge_inter key (drop i1 s1) (drop (i2 + 1) s2)"
      using True
      by (simp add: Cons_nth_drop_Suc [symmetric])
    from "1.IH" [OF True "1.prems"] True m inter_skip2_step [OF True]
    show ?thesis by auto
  next
    case False
    with inter_skip2_stop [OF False] show ?thesis by auto
  qed
qed

lemma inter_body_spec:
  assumes "i1 < length s1" "i2 < length s2"
    and "inter_body key s1 s2 i1 i2 dst = (i1', i2', d)"
  shows "i1 \<le> i1' \<and> i1' \<le> length s1 \<and> i2 \<le> i2' \<and> i2' \<le> length s2
       \<and> i1 + i2 < i1' + i2'
       \<and> d @ merge_inter key (drop i1' s1) (drop i2' s2) = dst @ merge_inter key (drop i1 s1) (drop i2 s2)"
proof -
  define i1a where "i1a = inter_skip1 key s1 s2 i1 i2"
  from inter_skip1_spec [OF assms(2), of i1 key s1] assms(1)
  have a: "i1 \<le> i1a" "i1a \<le> length s1"
    "i1a < length s1 \<longrightarrow> \<not> key (s1 ! i1a) < key (s2 ! i2)"
    "merge_inter key (drop i1a s1) (drop i2 s2) = merge_inter key (drop i1 s1) (drop i2 s2)"
    unfolding i1a_def by auto
  show ?thesis
  proof (cases "i1a < length s1 \<and> key (s1 ! i1a) = key (s2 ! i2)")
    case True
    define i2c where "i2c = inter_skip2 key s1 s2 (i1a + 1) (i2 + 1)"
    have le: "i1a + 1 \<le> length s1" using True by simp
    from inter_skip2_spec [OF le, of "i2 + 1" key s2] assms(2)
    have b: "i2 + 1 \<le> i2c" "i2c \<le> length s2"
      "merge_inter key (drop (i1a + 1) s1) (drop i2c s2)
       = merge_inter key (drop (i1a + 1) s1) (drop (i2 + 1) s2)"
      unfolding i2c_def by auto
    have m: "merge_inter key (drop i1a s1) (drop i2 s2)
             = s1 ! i1a # merge_inter key (drop (i1a + 1) s1) (drop (i2 + 1) s2)"
      using True assms(2) by (simp add: Cons_nth_drop_Suc [symmetric])
    have "inter_body key s1 s2 i1 i2 dst = (i1a + 1, i2c, dst @ [s1 ! i1a])"
      using True by (simp add: inter_body_def i1a_def [symmetric] i2c_def Let_def)
    with assms(3) have r: "(i1', i2', d) = (i1a + 1, i2c, dst @ [s1 ! i1a])" by simp
    with a b m le show ?thesis by auto
  next
    case False
    define i2c where "i2c = inter_skip2 key s1 s2 i1a i2"
    from inter_skip2_spec [OF a(2), of i2 key s2] assms(2)
    have b: "i2 \<le> i2c" "i2c \<le> length s2"
      "i1a < length s1 \<and> key (s2 ! i2) < key (s1 ! i1a) \<longrightarrow> i2 < i2c"
      "merge_inter key (drop i1a s1) (drop i2c s2) = merge_inter key (drop i1a s1) (drop i2 s2)"
      unfolding i2c_def by auto
    have "inter_body key s1 s2 i1 i2 dst = (i1a, i2c, dst)"
      using False by (auto simp add: inter_body_def i1a_def [symmetric] i2c_def Let_def)
    with assms(3) have r: "(i1', i2', d) = (i1a, i2c, dst)" by simp
    have prog: "i1 < i1a \<or> i2 < i2c"
    proof (cases "i1 < i1a")
      case True
      then show ?thesis by simp
    next
      case f: False
      with a(1) have "i1a = i1" by simp
      with assms(1) a(3) False have "key (s2 ! i2) < key (s1 ! i1a)" by auto
      with b(3) assms(1) \<open>i1a = i1\<close> show ?thesis by simp
    qed
    with r a b show ?thesis by auto
  qed
qed

function inter_loop :: "('a \<Rightarrow> int) \<Rightarrow> 'a list \<Rightarrow> 'a list \<Rightarrow> nat \<Rightarrow> nat \<Rightarrow> 'a list \<Rightarrow> 'a list" where
  "inter_loop key s1 s2 i1 i2 dst =
     (if i1 < length s1 \<and> i2 < length s2
      then (case inter_body key s1 s2 i1 i2 dst of
              (i1', i2', dst') \<Rightarrow> inter_loop key s1 s2 i1' i2' dst')
      else dst)"
  by pat_completeness auto
termination
proof (relation "measure (\<lambda>(key, s1, s2, i1, i2, dst). (length s1 - i1) + (length s2 - i2))", goal_cases)
  case 1
  show ?case by simp
next
  case (2 key s1 s2 i1 i2 dst x y xa ya)
  then have "inter_body key s1 s2 i1 i2 dst = (x, xa, ya)" by simp
  from inter_body_spec [OF _ _ this] 2(1) show ?case by auto
qed

declare inter_loop.simps [simp del]

definition set_intersect :: "('a \<Rightarrow> int) \<Rightarrow> 'a dynarray \<Rightarrow> 'a dynarray \<Rightarrow> 'a dynarray" where
  "set_intersect key src1 src2 =
     (case src1 of
        Arr s1 \<Rightarrow> (case src2 of Arr s2 \<Rightarrow> Arr (inter_loop key s1 s2 0 0 []) | Null \<Rightarrow> Arr [])
      | Null \<Rightarrow> Arr [])"

lemma inter_loop_spec:
  "i1 \<le> length s1 \<Longrightarrow> i2 \<le> length s2 \<Longrightarrow>
   inter_loop key s1 s2 i1 i2 dst = dst @ merge_inter key (drop i1 s1) (drop i2 s2)"
proof (induction key s1 s2 i1 i2 dst rule: inter_loop.induct)
  case (1 key s1 s2 i1 i2 dst)
  show ?case
  proof (cases "i1 < length s1 \<and> i2 < length s2")
    case True
    obtain i1' i2' dst' where b: "inter_body key s1 s2 i1 i2 dst = (i1', i2', dst')"
      by (cases "inter_body key s1 s2 i1 i2 dst")
    have u: "inter_loop key s1 s2 i1 i2 dst = inter_loop key s1 s2 i1' i2' dst'"
      using True b by (subst inter_loop.simps) simp
    from inter_body_spec [OF _ _ b] True
    have s: "i1' \<le> length s1" "i2' \<le> length s2"
      "dst' @ merge_inter key (drop i1' s1) (drop i2' s2) = dst @ merge_inter key (drop i1 s1) (drop i2 s2)"
      by auto
    from "1.IH" [OF True b [symmetric] refl s(1,2)] s(3) u show ?thesis by simp
  next
    case False
    have e: "inter_loop key s1 s2 i1 i2 dst = dst"
      using False by (subst inter_loop.simps) auto
    from False "1.prems"(1,2) have "i1 = length s1 \<or> i2 = length s2" by linarith
    with e show ?thesis by auto
  qed
qed

lemma set_intersect_Arr:
  "set_intersect key (Arr s1) (Arr s2) = Arr (merge_inter key s1 s2)"
  by (simp add: set_intersect_def inter_loop_spec)

lemma merge_union_subset: "set (merge_union key xs ys) \<subseteq> set xs \<union> set ys"
  by (induction key xs ys rule: merge_union.induct) auto

lemma merge_union_keys:
  "key ` set (merge_union key xs ys) = key ` set xs \<union> key ` set ys"
  by (induction key xs ys rule: merge_union.induct) auto

lemma merge_union_set:
  "\<forall>x \<in> set xs. \<forall>y \<in> set ys. key x = key y \<longrightarrow> x = y \<Longrightarrow>
   set (merge_union key xs ys) = set xs \<union> set ys"
  by (induction key xs ys rule: merge_union.induct) auto

lemma strict_keys_Cons:
  "strict_keys key (x # xs) = ((\<forall>z \<in> set xs. key x < key z) \<and> strict_keys key xs)"
  by (simp add: strict_keys_def)

lemma merge_union_strict:
  "strict_keys key xs \<Longrightarrow> strict_keys key ys \<Longrightarrow> strict_keys key (merge_union key xs ys)"
proof (induction key xs ys rule: merge_union.induct)
  case (1 key ys)
  then show ?case by simp
next
  case (2 key v va)
  then show ?case by simp
next
  case (3 key x xs y ys)
  from "3.prems" have sx: "strict_keys key xs" "\<forall>z \<in> set xs. key x < key z"
    and sy: "strict_keys key ys" "\<forall>z \<in> set ys. key y < key z"
    by (simp_all add: strict_keys_Cons)
  consider (lt) "key x < key y" | (eq) "\<not> key x < key y" "key x = key y"
    | (gt) "\<not> key x < key y" "key x \<noteq> key y" by blast
  then show ?case
  proof cases
    case lt
    have "\<forall>z \<in> set (merge_union key xs (y # ys)). key x < key z"
    proof
      fix z assume "z \<in> set (merge_union key xs (y # ys))"
      with merge_union_subset [of key xs "y # ys"] have "z \<in> set xs \<or> z = y \<or> z \<in> set ys"
        by auto
      with sx(2) sy(2) lt show "key x < key z" by force
    qed
    with "3.IH"(1) [OF lt sx(1) "3.prems"(2)] lt show ?thesis
      by (simp add: strict_keys_Cons)
  next
    case eq
    have "\<forall>z \<in> set (merge_union key xs ys). key x < key z"
    proof
      fix z assume "z \<in> set (merge_union key xs ys)"
      with merge_union_subset [of key xs ys] have "z \<in> set xs \<or> z \<in> set ys" by auto
      with sx(2) sy(2) eq show "key x < key z" by force
    qed
    with "3.IH"(2) [OF eq sx(1) sy(1)] eq show ?thesis
      by (simp add: strict_keys_Cons)
  next
    case gt
    then have yx: "key y < key x" by linarith
    have "\<forall>z \<in> set (merge_union key (x # xs) ys). key y < key z"
    proof
      fix z assume "z \<in> set (merge_union key (x # xs) ys)"
      with merge_union_subset [of key "x # xs" ys] have "z = x \<or> z \<in> set xs \<or> z \<in> set ys"
        by auto
      with sx(2) sy(2) yx show "key y < key z" by force
    qed
    with "3.IH"(3) [OF gt "3.prems"(1) sy(1)] gt show ?thesis
      by (simp add: strict_keys_Cons)
  qed
qed

lemma merge_inter_subset: "set (merge_inter key xs ys) \<subseteq> set xs"
  by (induction key xs ys rule: merge_inter.induct) auto

lemma merge_inter_strict:
  "strict_keys key xs \<Longrightarrow> strict_keys key (merge_inter key xs ys)"
proof (induction key xs ys rule: merge_inter.induct)
  case (1 key ys)
  then show ?case by (simp add: strict_keys_def)
next
  case (2 key v va)
  then show ?case by (simp add: strict_keys_def)
next
  case (3 key x xs y ys)
  from "3.prems" have sx: "strict_keys key xs" "\<forall>z \<in> set xs. key x < key z"
    by (simp_all add: strict_keys_Cons)
  have "\<forall>z \<in> set (merge_inter key xs ys). key x < key z"
    using merge_inter_subset [of key xs ys] sx(2) by blast
  with "3.IH" sx(1) "3.prems" show ?case
    by (auto simp add: strict_keys_Cons)
qed

lemma merge_inter_set:
  "strict_keys key xs \<Longrightarrow> strict_keys key ys \<Longrightarrow>
   set (merge_inter key xs ys) = {x \<in> set xs. key x \<in> key ` set ys}"
proof (induction key xs ys rule: merge_inter.induct)
  case (1 key ys)
  then show ?case by simp
next
  case (2 key v va)
  then show ?case by simp
next
  case (3 key x xs y ys)
  from "3.prems" have sx: "strict_keys key xs" "\<forall>z \<in> set xs. key x < key z"
    and sy: "strict_keys key ys" "\<forall>z \<in> set ys. key y < key z"
    by (simp_all add: strict_keys_Cons)
  consider (lt) "key x < key y" | (eq) "\<not> key x < key y" "key x = key y"
    | (gt) "\<not> key x < key y" "key x \<noteq> key y" by blast
  then show ?case
  proof cases
    case lt
    have "key x \<notin> key ` set (y # ys)"
    proof
      assume "key x \<in> key ` set (y # ys)"
      then obtain z where "z = y \<or> z \<in> set ys" "key x = key z" by auto
      with sy(2) lt show False by force
    qed
    with "3.IH"(1) [OF lt sx(1) "3.prems"(2)] lt show ?thesis by auto
  next
    case eq
    have a: "\<And>z. z \<in> set xs \<Longrightarrow> key z \<noteq> key y"
      using sx(2) eq by force
    have "{z \<in> set (x # xs). key z \<in> key ` set (y # ys)}
          = insert x {z \<in> set xs. key z \<in> key ` set ys}"
      using eq a by auto
    with "3.IH"(2) [OF eq sx(1) sy(1)] eq show ?thesis by simp
  next
    case gt
    then have yx: "key y < key x" by linarith
    have a: "\<And>z. z \<in> set (x # xs) \<Longrightarrow> key z \<noteq> key y"
      using sx(2) yx by force
    have "{z \<in> set (x # xs). key z \<in> key ` set (y # ys)}
          = {z \<in> set (x # xs). key z \<in> key ` set ys}"
      using a by auto
    with "3.IH"(3) [OF gt "3.prems"(1) sy(1)] gt show ?thesis by simp
  qed
qed

lemma set_union_correct:
  assumes "strict_keys key (elems a)" "strict_keys key (elems b)"
  shows "strict_keys key (elems (set_union key a b))
       \<and> key ` set (elems (set_union key a b)) = key ` set (elems a) \<union> key ` set (elems b)
       \<and> set (elems (set_union key a b)) \<subseteq> set (elems a) \<union> set (elems b)
       \<and> ((\<forall>x \<in> set (elems a). \<forall>y \<in> set (elems b). key x = key y \<longrightarrow> x = y) \<longrightarrow>
            set (elems (set_union key a b)) = set (elems a) \<union> set (elems b))"
proof (cases a)
  case Null
  with assms show ?thesis
    by (cases b) (simp_all add: set_union_def strict_keys_def)
next
  case a: (Arr xs)
  show ?thesis
  proof (cases b)
    case Null
    with a assms show ?thesis by (simp add: set_union_def)
  next
    case b: (Arr ys)
    from assms a b have s: "strict_keys key xs" "strict_keys key ys" by simp_all
    have e: "elems (set_union key a b) = merge_union key xs ys"
      using a b by (simp add: set_union_Arr)
    from merge_union_strict [OF s] merge_union_keys [of key xs ys]
      merge_union_subset [of key xs ys] merge_union_set [of xs ys key]
    show ?thesis unfolding e using a b by simp
  qed
qed

lemma set_intersect_correct:
  assumes "strict_keys key (elems a)" "strict_keys key (elems b)"
  shows "strict_keys key (elems (set_intersect key a b))
       \<and> set (elems (set_intersect key a b)) = {x \<in> set (elems a). key x \<in> key ` set (elems b)}
       \<and> key ` set (elems (set_intersect key a b)) = key ` set (elems a) \<inter> key ` set (elems b)"
proof -
  have e: "elems (set_intersect key a b) = merge_inter key (elems a) (elems b)"
    by (cases a; cases b) (simp_all add: set_intersect_Arr, simp_all add: set_intersect_def)
  have k: "key ` {x \<in> set (elems a). key x \<in> key ` set (elems b)}
           = key ` set (elems a) \<inter> key ` set (elems b)"
    by auto
  from merge_inter_strict [OF assms(1)] merge_inter_set [OF assms] k
  show ?thesis unfolding e by simp
qed

subsection \<open>The set functions of the source\<close>

text \<open>
  \<^verbatim>\<open>DYNELEMENT\<close> is the element size stored by \<^verbatim>\<open>dynalloc\<close> (\<^verbatim>\<open>sizeof(int)\<close> for an intset,
  \<^verbatim>\<open>sizeof(symbolentry *)\<close> for a symbolset) and zero for a dynarray that is not allocated.
  \<^verbatim>\<open>intset_equal\<close> compares counts and element sizes and then the elements with
  \<^verbatim>\<open>memcmp\<close>; \<^verbatim>\<open>symbolset_equal\<close> compares the \<^verbatim>\<open>order\<close> of the symbols index by index.
\<close>

definition DYNCOUNT :: "'a dynarray \<Rightarrow> nat" where
  "DYNCOUNT a = length (elems a)"

definition DYNELEMENT :: "nat \<Rightarrow> 'a dynarray \<Rightarrow> nat" where
  "DYNELEMENT sz a = (case a of Null \<Rightarrow> 0 | Arr xs \<Rightarrow> sz)"

definition intset_insert :: "int dynarray \<Rightarrow> int \<Rightarrow> int dynarray" where
  "intset_insert s v = set_insert (\<lambda>x. x) s v"

definition intset_delete :: "int dynarray \<Rightarrow> int \<Rightarrow> int dynarray" where
  "intset_delete s v = set_delete (\<lambda>x. x) s v"

definition intset_union :: "int dynarray \<Rightarrow> int dynarray \<Rightarrow> int dynarray" where
  "intset_union src1 src2 = set_union (\<lambda>x. x) src1 src2"

definition intset_intersect :: "int dynarray \<Rightarrow> int dynarray \<Rightarrow> int dynarray" where
  "intset_intersect src1 src2 = set_intersect (\<lambda>x. x) src1 src2"

definition intset_equal :: "int dynarray \<Rightarrow> int dynarray \<Rightarrow> bool" where
  "intset_equal set1 set2 =
     (if DYNCOUNT set1 \<noteq> DYNCOUNT set2 \<or> DYNELEMENT 4 set1 \<noteq> DYNELEMENT 4 set2 then False
      else elems set1 = elems set2)"

definition symbolset_insert :: "symbolentry dynarray \<Rightarrow> symbolentry \<Rightarrow> symbolentry dynarray" where
  "symbolset_insert s sy = set_insert order s sy"

definition symbolset_delete :: "symbolentry dynarray \<Rightarrow> symbolentry \<Rightarrow> symbolentry dynarray" where
  "symbolset_delete s sy = set_delete order s sy"

definition symbolset_union :: "symbolentry dynarray \<Rightarrow> symbolentry dynarray \<Rightarrow> symbolentry dynarray" where
  "symbolset_union src1 src2 = set_union order src1 src2"

definition symbolset_intersect :: "symbolentry dynarray \<Rightarrow> symbolentry dynarray \<Rightarrow> symbolentry dynarray" where
  "symbolset_intersect src1 src2 = set_intersect order src1 src2"

fun symbolset_equal_loop :: "symbolentry list \<Rightarrow> symbolentry list \<Rightarrow> nat \<Rightarrow> nat \<Rightarrow> bool" where
  "symbolset_equal_loop s1 s2 i 0 = True"
| "symbolset_equal_loop s1 s2 i (Suc n) =
     (if order (s1 ! i) \<noteq> order (s2 ! i) then False else symbolset_equal_loop s1 s2 (i + 1) n)"

definition symbolset_equal :: "symbolentry dynarray \<Rightarrow> symbolentry dynarray \<Rightarrow> bool" where
  "symbolset_equal set1 set2 =
     (if DYNCOUNT set1 \<noteq> DYNCOUNT set2 \<or> DYNELEMENT 8 set1 \<noteq> DYNELEMENT 8 set2 then False
      else symbolset_equal_loop (elems set1) (elems set2) 0 (DYNCOUNT set1))"

lemma symbolset_equal_loop_iff:
  "i + n = length s1 \<Longrightarrow> length s2 = length s1 \<Longrightarrow>
   symbolset_equal_loop s1 s2 i n = (map order (drop i s1) = map order (drop i s2))"
proof (induction n arbitrary: i)
  case 0
  then show ?case by simp
next
  case (Suc n)
  then have i: "i < length s1" "i < length s2" by simp_all
  have d: "drop i s1 = s1 ! i # drop (Suc i) s1" "drop i s2 = s2 ! i # drop (Suc i) s2"
    using i by (simp_all add: Cons_nth_drop_Suc)
  from Suc.IH [of "Suc i"] Suc.prems show ?case
    by (simp add: d)
qed

text \<open>A terminal symbol with a given order, used to run the symbol set functions.\<close>

definition ex_sym :: "int \<Rightarrow> symbolentry" where
  "ex_sym n = \<lparr> order = n, symbol = ''t'', type = TERMINAL, token = n + 1, flags = 0,
               precedence = 0, insert_cost = 1, delete_cost = 1 \<rparr>"

text \<open>
  C8 (as amended). For integer sets and symbol sets held as vectors with strictly increasing
  keys (the value for integers, \<^verbatim>\<open>order\<close> for symbols), insert, delete, union and intersect
  return vectors with strictly increasing keys again; union and intersect return exactly the
  set union and the set intersection of their inputs (of the integers, and of the symbols'
  keys; the symbols themselves are taken from the inputs, from the first input where both
  have the key), insert adds the value and delete removes it. Equality holds iff the two
  vectors are equal element by element (by key for symbols) and the two sets are both
  allocated or both unallocated: the equality functions compare the stored element size,
  which is zero for an unallocated set, so an unallocated set and an allocated empty set are
  not equal although both hold the empty vector. For two allocated sets equality is
  element-wise equality.
\<close>

theorem ordered_sets_correct:
  assumes "strict_keys (\<lambda>x. x) (elems a)" and "strict_keys (\<lambda>x. x) (elems b)"
    and "strict_keys order (elems p)" and "strict_keys order (elems q)"
  shows
    "strict_keys (\<lambda>x. x) (elems (intset_insert a v))
     \<and> set (elems (intset_insert a v)) = insert v (set (elems a))
     \<and> strict_keys (\<lambda>x. x) (elems (intset_delete a v))
     \<and> set (elems (intset_delete a v)) = set (elems a) - {v}
     \<and> strict_keys (\<lambda>x. x) (elems (intset_union a b))
     \<and> set (elems (intset_union a b)) = set (elems a) \<union> set (elems b)
     \<and> strict_keys (\<lambda>x. x) (elems (intset_intersect a b))
     \<and> set (elems (intset_intersect a b)) = set (elems a) \<inter> set (elems b)
     \<and> intset_equal x y = (elems x = elems y \<and> (x = Null \<longleftrightarrow> y = Null))
     \<and> intset_equal (Arr xs) (Arr ys) = (xs = ys)
     \<and> strict_keys order (elems (symbolset_insert p s))
     \<and> order ` set (elems (symbolset_insert p s)) = insert (order s) (order ` set (elems p))
     \<and> strict_keys order (elems (symbolset_delete p s))
     \<and> order ` set (elems (symbolset_delete p s)) = order ` set (elems p) - {order s}
     \<and> strict_keys order (elems (symbolset_union p q))
     \<and> order ` set (elems (symbolset_union p q)) = order ` set (elems p) \<union> order ` set (elems q)
     \<and> set (elems (symbolset_union p q)) \<subseteq> set (elems p) \<union> set (elems q)
     \<and> strict_keys order (elems (symbolset_intersect p q))
     \<and> order ` set (elems (symbolset_intersect p q)) = order ` set (elems p) \<inter> order ` set (elems q)
     \<and> set (elems (symbolset_intersect p q)) \<subseteq> set (elems p)
     \<and> symbolset_equal u w
         = (map order (elems u) = map order (elems w) \<and> (u = Null \<longleftrightarrow> w = Null))
     \<and> symbolset_equal (Arr ss) (Arr ts) = (map order ss = map order ts)"
proof -
  note ins = set_insert_correct [OF assms(1), of v, folded intset_insert_def]
  note del = set_delete_correct [OF assms(1), of v, folded intset_delete_def]
  note uni = set_union_correct [OF assms(1,2), folded intset_union_def]
  note int = set_intersect_correct [OF assms(1,2), folded intset_intersect_def]
  have i1: "strict_keys (\<lambda>x. x) (elems (intset_insert a v))"
    using ins by (rule conjunct1)
  have i1': "set (elems (intset_insert a v)) = insert v (set (elems a))"
  proof -
    from ins have "(\<lambda>x. x) ` set (elems (intset_insert a v))
                   = insert v ((\<lambda>x. x) ` set (elems a))"
      by (rule conjunct1 [OF conjunct2])
    then show ?thesis by simp
  qed
  have i2: "strict_keys (\<lambda>x. x) (elems (intset_delete a v))"
    using del by (rule conjunct1)
  have i2': "set (elems (intset_delete a v)) = set (elems a) - {v}"
  proof -
    from del have "(\<lambda>x. x) ` set (elems (intset_delete a v))
                   = (\<lambda>x. x) ` set (elems a) - {v}"
      by (rule conjunct1 [OF conjunct2])
    then show ?thesis by simp
  qed
  have i3: "strict_keys (\<lambda>x. x) (elems (intset_union a b))"
    using uni by (rule conjunct1)
  have i3': "set (elems (intset_union a b)) = set (elems a) \<union> set (elems b)"
  proof -
    from uni have "(\<lambda>x. x) ` set (elems (intset_union a b))
                   = (\<lambda>x. x) ` set (elems a) \<union> (\<lambda>x. x) ` set (elems b)"
      by (rule conjunct1 [OF conjunct2])
    then show ?thesis by simp
  qed
  have i4: "strict_keys (\<lambda>x. x) (elems (intset_intersect a b))"
    using int by (rule conjunct1)
  have i4': "set (elems (intset_intersect a b)) = set (elems a) \<inter> set (elems b)"
  proof -
    from int have "(\<lambda>x. x) ` set (elems (intset_intersect a b))
                   = (\<lambda>x. x) ` set (elems a) \<inter> (\<lambda>x. x) ` set (elems b)"
      by (rule conjunct2 [OF conjunct2])
    then show ?thesis by simp
  qed
  have i5: "intset_equal (Arr xs) (Arr ys) = (xs = ys)"
    by (auto simp: intset_equal_def DYNCOUNT_def DYNELEMENT_def)
  have i6: "intset_equal x y = (elems x = elems y \<and> (x = Null \<longleftrightarrow> y = Null))"
    by (cases x; cases y) (auto simp: intset_equal_def DYNCOUNT_def DYNELEMENT_def)
  note sins = set_insert_correct [OF assms(3), of s, folded symbolset_insert_def]
  note sdel = set_delete_correct [OF assms(3), of s, folded symbolset_delete_def]
  note suni = set_union_correct [OF assms(3,4), folded symbolset_union_def]
  note sint = set_intersect_correct [OF assms(3,4), folded symbolset_intersect_def]
  have s1: "strict_keys order (elems (symbolset_insert p s))"
    using sins by (rule conjunct1)
  have s1': "order ` set (elems (symbolset_insert p s)) = insert (order s) (order ` set (elems p))"
    using sins by (rule conjunct1 [OF conjunct2])
  have s2: "strict_keys order (elems (symbolset_delete p s))"
    using sdel by (rule conjunct1)
  have s2': "order ` set (elems (symbolset_delete p s)) = order ` set (elems p) - {order s}"
    using sdel by (rule conjunct1 [OF conjunct2])
  have s3: "strict_keys order (elems (symbolset_union p q))"
    using suni by (rule conjunct1)
  have s3': "order ` set (elems (symbolset_union p q)) = order ` set (elems p) \<union> order ` set (elems q)"
    using suni by (rule conjunct1 [OF conjunct2])
  have s3'': "set (elems (symbolset_union p q)) \<subseteq> set (elems p) \<union> set (elems q)"
    using suni by (rule conjunct1 [OF conjunct2 [OF conjunct2]])
  have s4: "strict_keys order (elems (symbolset_intersect p q))"
    using sint by (rule conjunct1)
  have s4': "order ` set (elems (symbolset_intersect p q)) = order ` set (elems p) \<inter> order ` set (elems q)"
    using sint by (rule conjunct2 [OF conjunct2])
  have s4'': "set (elems (symbolset_intersect p q)) \<subseteq> set (elems p)"
  proof -
    from sint have "set (elems (symbolset_intersect p q))
                    = {x \<in> set (elems p). order x \<in> order ` set (elems q)}"
      by (rule conjunct1 [OF conjunct2])
    then show ?thesis by blast
  qed
  have s5: "symbolset_equal (Arr ss) (Arr ts) = (map order ss = map order ts)"
  proof (cases "length ss = length ts")
    case True
    have "symbolset_equal_loop ss ts 0 (length ss) = (map order (drop 0 ss) = map order (drop 0 ts))"
      by (rule symbolset_equal_loop_iff) (simp_all add: True)
    then have "symbolset_equal_loop ss ts 0 (length ss) = (map order ss = map order ts)"
      by simp
    moreover have "symbolset_equal (Arr ss) (Arr ts) = symbolset_equal_loop ss ts 0 (length ss)"
      unfolding symbolset_equal_def DYNCOUNT_def DYNELEMENT_def using True by simp
    ultimately show ?thesis by simp
  next
    case False
    then have "map order ss \<noteq> map order ts" by (metis length_map)
    moreover have "symbolset_equal (Arr ss) (Arr ts) = False"
      unfolding symbolset_equal_def DYNCOUNT_def DYNELEMENT_def using False by simp
    ultimately show ?thesis by simp
  qed
  have s6: "symbolset_equal u w
         = (map order (elems u) = map order (elems w) \<and> (u = Null \<longleftrightarrow> w = Null))"
  proof (cases u)
    case Null
    then show ?thesis
      by (cases w) (auto simp: symbolset_equal_def DYNCOUNT_def DYNELEMENT_def)
  next
    case ua: (Arr us)
    show ?thesis
    proof (cases w)
      case Null
      then show ?thesis using ua
        by (auto simp: symbolset_equal_def DYNCOUNT_def DYNELEMENT_def)
    next
      case wa: (Arr ws)
      show ?thesis
      proof (cases "length us = length ws")
        case True
        have "symbolset_equal_loop us ws 0 (length us)
              = (map order (drop 0 us) = map order (drop 0 ws))"
          by (rule symbolset_equal_loop_iff) (simp_all add: True)
        then have "symbolset_equal_loop us ws 0 (length us) = (map order us = map order ws)"
          by simp
        moreover have "symbolset_equal (Arr us) (Arr ws) = symbolset_equal_loop us ws 0 (length us)"
          unfolding symbolset_equal_def DYNCOUNT_def DYNELEMENT_def using True by simp
        ultimately show ?thesis using ua wa by simp
      next
        case False
        then have "map order us \<noteq> map order ws" by (metis length_map)
        moreover have "symbolset_equal (Arr us) (Arr ws) = False"
          unfolding symbolset_equal_def DYNCOUNT_def DYNELEMENT_def using False by simp
        ultimately show ?thesis using ua wa by simp
      qed
    qed
  qed
  show ?thesis
    by (intro conjI i1 i1' i2 i2' i3 i3' i4 i4' i6 i5 s1 s1' s2 s2' s3 s3' s3'' s4 s4' s4'' s6 s5)
qed

theorem ordered_sets_correct_witness:
  "strict_keys (\<lambda>x. x) [1, 3, 5 :: int] \<and> strict_keys (\<lambda>x. x) [2, 3, 7 :: int]
   \<and> strict_keys order [ex_sym 1, ex_sym 4] \<and> strict_keys order [ex_sym 2, ex_sym 4]
   \<and> intset_insert (Arr [1, 3, 5]) 4 = Arr [1, 3, 4, 5]
   \<and> strict_keys (\<lambda>x. x) [1, 3, 4, 5 :: int]
   \<and> intset_delete (Arr [1, 3, 5]) 3 = Arr [1, 5]
   \<and> intset_union (Arr [1, 3, 5]) (Arr [2, 3, 7]) = Arr [1, 2, 3, 5, 7]
   \<and> strict_keys (\<lambda>x. x) [1, 2, 3, 5, 7 :: int]
   \<and> intset_intersect (Arr [1, 3, 5]) (Arr [2, 3, 7]) = Arr [3]
   \<and> intset_equal (Arr [1, 3]) (Arr [1, 3])
   \<and> \<not> intset_equal (Arr [1, 3]) (Arr [1, 4])
   \<and> symbolset_union (Arr [ex_sym 1, ex_sym 4]) (Arr [ex_sym 2, ex_sym 4])
       = Arr [ex_sym 1, ex_sym 2, ex_sym 4]
   \<and> strict_keys order [ex_sym 1, ex_sym 2, ex_sym 4]
   \<and> symbolset_intersect (Arr [ex_sym 1, ex_sym 4]) (Arr [ex_sym 2, ex_sym 4]) = Arr [ex_sym 4]
   \<and> symbolset_equal (Arr [ex_sym 1, ex_sym 4]) (Arr [ex_sym 1, ex_sym 4])
   \<and> intset_equal Null Null
   \<and> \<not> intset_equal (Arr []) Null
   \<and> \<not> symbolset_equal Null (Arr [])"
proof -
  have h1: "strict_keys (\<lambda>x. x) (elems (Arr [1, 3, 5 :: int]))"
    and h2: "strict_keys (\<lambda>x. x) (elems (Arr [2, 3, 7 :: int]))"
    by (simp_all add: strict_keys_def)
  have h3: "strict_keys order (elems (Arr [ex_sym 1, ex_sym 4]))"
    and h4: "strict_keys order (elems (Arr [ex_sym 2, ex_sym 4]))"
    by (simp_all add: strict_keys_def ex_sym_def)
  have e1: "intset_insert (Arr [1, 3, 5]) 4 = Arr [1, 3, 4, 5]" by code_simp
  have e2: "intset_delete (Arr [1, 3, 5]) 3 = Arr [1, 5]" by code_simp
  have e3: "intset_union (Arr [1, 3, 5]) (Arr [2, 3, 7]) = Arr [1, 2, 3, 5, 7]" by code_simp
  have e4: "intset_intersect (Arr [1, 3, 5]) (Arr [2, 3, 7]) = Arr [3]" by code_simp
  have e5: "symbolset_union (Arr [ex_sym 1, ex_sym 4]) (Arr [ex_sym 2, ex_sym 4])
            = Arr [ex_sym 1, ex_sym 2, ex_sym 4]" by code_simp
  have e6: "symbolset_intersect (Arr [ex_sym 1, ex_sym 4]) (Arr [ex_sym 2, ex_sym 4])
            = Arr [ex_sym 4]" by code_simp
  note t = ordered_sets_correct [OF h1 h2 h3 h4, where v = 4 and s = "ex_sym 2"
      and xs = "[1, 3]" and ys = "[1, 4]" and ss = "[ex_sym 1, ex_sym 4]" and ts = "[ex_sym 1, ex_sym 4]"]
  have c1: "strict_keys (\<lambda>x. x) [1, 3, 4, 5 :: int]"
    using t e1 by simp
  have c3: "strict_keys (\<lambda>x. x) [1, 2, 3, 5, 7 :: int]"
    using t e3 by simp
  have c5: "strict_keys order [ex_sym 1, ex_sym 2, ex_sym 4]"
    using t e5 by simp
  have q1: "intset_equal (Arr [1, 3]) (Arr [1, 3])"
    using ordered_sets_correct [OF h1 h2 h3 h4, where xs = "[1, 3]" and ys = "[1, 3]"] by simp
  have q2: "\<not> intset_equal (Arr [1, 3]) (Arr [1, 4])"
    using t by simp
  have q3: "symbolset_equal (Arr [ex_sym 1, ex_sym 4]) (Arr [ex_sym 1, ex_sym 4])"
    using t by simp
  have q4: "intset_equal Null Null"
    using ordered_sets_correct [OF h1 h2 h3 h4, where x = Null and y = Null] by simp
  have q5: "\<not> intset_equal (Arr []) Null"
    using ordered_sets_correct [OF h1 h2 h3 h4, where x = "Arr []" and y = Null] by simp
  have q6: "\<not> symbolset_equal Null (Arr [])"
    using ordered_sets_correct [OF h1 h2 h3 h4, where u = Null and w = "Arr []"] by simp
  from h1 h2 h3 h4 e1 e2 e3 e4 e5 e6 c1 c3 c5 q1 q2 q3 q4 q5 q6 show ?thesis by simp
qed

text \<open>
  The claim as first stated has equality hold whenever the two vectors are equal element by
  element. A set that was never allocated and the set left by inserting 1 into an
  unallocated set and deleting it again both hold the empty vector, and the equality
  functions return false on them.
\<close>

theorem ordered_sets_equal_counterexample:
  "elems (intset_delete (intset_insert Null 1) 1) = elems (Null :: int dynarray)
   \<and> strict_keys (\<lambda>x. x) (elems (intset_delete (intset_insert Null 1) 1))
   \<and> \<not> intset_equal Null (intset_delete (intset_insert Null 1) 1)
   \<and> elems (symbolset_delete (symbolset_insert Null (ex_sym 1)) (ex_sym 1))
       = elems (Null :: symbolentry dynarray)
   \<and> \<not> symbolset_equal Null (symbolset_delete (symbolset_insert Null (ex_sym 1)) (ex_sym 1))"
proof -
  have a: "intset_delete (intset_insert Null 1) 1 = Arr []" by code_simp
  have b: "symbolset_delete (symbolset_insert Null (ex_sym 1)) (ex_sym 1) = Arr []" by code_simp
  show ?thesis
    unfolding a b
    by (simp add: intset_equal_def symbolset_equal_def DYNCOUNT_def DYNELEMENT_def strict_keys_def)
qed

section \<open>Grammar model and the LR(0) collection (src/lalrgen.c)\<close>

unbundle bit_operations_syntax

text \<open>
  \<^verbatim>\<open>struct production\<close>, \<^verbatim>\<open>struct item\<close>, \<^verbatim>\<open>struct gotoentry\<close> and
  \<^verbatim>\<open>struct configuration\<close>. \<^verbatim>\<open>length\<close> is the effective length of the right-hand side
  (the index past its last non-epsilon symbol). The fields \<^verbatim>\<open>length\<close>, \<^verbatim>\<open>insert\<close> and
  \<^verbatim>\<open>prod\<close> are named \<open>plength\<close>, \<open>pinsert\<close> and \<open>iprod\<close>; the follow set, the
  ancestors and the update list of an item are not read by the functions modelled here.
\<close>

record production =
  lhside :: symbolentry
  rhside :: "symbolentry list"
  plength :: nat
  semantic :: int
  steps :: int
  pinsert :: int

record itementry =
  iprod :: nat
  dot :: nat
  descendant_state :: nat
  descendant_item :: nat
  lookahead :: "symbolentry list"

record gotoentry =
  gtoken :: int
  gstate :: nat

record configuration =
  itemset :: "itementry list"
  kernel :: nat
  gotos :: "gotoentry list"

text \<open>The grammar option flags of \<^verbatim>\<open>sdtgen_definitions.h\<close> and the \<^verbatim>\<open>EMPTY\<close> token flag.\<close>

definition ERRORREPAIR :: int where "ERRORREPAIR = 1"
definition DEFAULTREDUCE :: int where "DEFAULTREDUCE = 2"
definition AMBIGUOUS :: int where "AMBIGUOUS = 4"
definition SPLITSTATES :: int where "SPLITSTATES = 8"
definition EMPTY :: int where "EMPTY = 64"

text \<open>
  \<^verbatim>\<open>RHSIDE(p, j)\<close>: the symbol at index \<open>j\<close> of the right-hand side of production \<open>p\<close>.
  Productions and states are numbered from 1; entry 0 of both arrays is unused.
\<close>

definition RHSIDE :: "production list \<Rightarrow> nat \<Rightarrow> nat \<Rightarrow> symbolentry" where
  "RHSIDE prods p j = rhside (prods ! p) ! j"

subsection \<open>Error repair values: \<^verbatim>\<open>build_repair\<close>\<close>

text \<open>
  The inner loop of \<^verbatim>\<open>build_repair\<close> over the closure items \<open>j = kernel, ...\<close> of a
  state: the first item that is complete gives the negated production number, the first
  with the dot before a terminal gives the token number; when the loop runs off the end the
  entry keeps the zero of the \<^verbatim>\<open>memset\<close> (and a warning is printed).
\<close>

function repair_scan :: "production list \<Rightarrow> itementry list \<Rightarrow> nat \<Rightarrow> int" where
  "repair_scan prods items j =
     (if j < length items then
        (if dot (items ! j) \<ge> plength (prods ! iprod (items ! j))
         then - int (iprod (items ! j))
         else if type (RHSIDE prods (iprod (items ! j)) (dot (items ! j))) = TERMINAL
         then token (RHSIDE prods (iprod (items ! j)) (dot (items ! j)))
         else repair_scan prods items (j + 1))
      else 0)"
  by pat_completeness auto
termination
  by (relation "measure (\<lambda>(prods, items, j). length items - j)") auto

declare repair_scan.simps [simp del]

text \<open>The body of the loop over the states \<open>i\<close>: the value stored in \<^verbatim>\<open>errortoken[i]\<close>.\<close>

definition repair_state :: "production list \<Rightarrow> configuration \<Rightarrow> int" where
  "repair_state prods st =
     (let i0 = itemset st ! 0 in
      if dot i0 \<ge> plength (prods ! iprod i0) then - int (iprod i0)
      else if type (RHSIDE prods (iprod i0) (dot i0)) = TERMINAL
      then token (RHSIDE prods (iprod i0) (dot i0))
      else repair_scan prods (itemset st) (kernel st))"

text \<open>
  \<^verbatim>\<open>build_repair\<close>: \<^verbatim>\<open>errortoken\<close> has \<^verbatim>\<open>COLLCOUNT + 1\<close> zeroed entries; with the
  ERRORREPAIR option the entries \<open>1 \<le> i < COLLCOUNT\<close> are computed.
\<close>

definition build_repair :: "int \<Rightarrow> production list \<Rightarrow> configuration list \<Rightarrow> int list" where
  "build_repair options prods collection =
     (if options AND ERRORREPAIR \<noteq> 0
      then map (\<lambda>i. if 1 \<le> i \<and> i < length collection then repair_state prods (collection ! i) else 0)
             [0 ..< length collection + 1]
      else replicate (length collection + 1) 0)"

text \<open>The two kinds of item that decide a repair value, and the value each gives.\<close>

definition item_complete :: "production list \<Rightarrow> itementry \<Rightarrow> bool" where
  "item_complete prods it = (dot it \<ge> plength (prods ! iprod it))"

definition item_before_terminal :: "production list \<Rightarrow> itementry \<Rightarrow> bool" where
  "item_before_terminal prods it =
     (dot it < plength (prods ! iprod it) \<and> type (RHSIDE prods (iprod it) (dot it)) = TERMINAL)"

definition item_repair :: "production list \<Rightarrow> itementry \<Rightarrow> int" where
  "item_repair prods it =
     (if item_complete prods it then - int (iprod it) else token (RHSIDE prods (iprod it) (dot it)))"

lemma repair_scan_find:
  "repair_scan prods items j =
     (case find (\<lambda>it. item_complete prods it \<or> item_before_terminal prods it) (drop j items) of
        None \<Rightarrow> 0 | Some it \<Rightarrow> item_repair prods it)"
proof (induction prods items j rule: repair_scan.induct)
  case (1 prods items j)
  show ?case
  proof (cases "j < length items")
    case False
    then show ?thesis by (subst repair_scan.simps) simp
  next
    case True
    then have d: "drop j items = items ! j # drop (j + 1) items"
      by (simp add: Cons_nth_drop_Suc)
    show ?thesis
    proof (cases "item_complete prods (items ! j) \<or> item_before_terminal prods (items ! j)")
      case hit: True
      then show ?thesis
        using True
        by (subst repair_scan.simps)
          (auto simp: d item_complete_def item_before_terminal_def item_repair_def)
    next
      case miss: False
      then have "repair_scan prods items j = repair_scan prods items (j + 1)"
        using True
        by (subst repair_scan.simps)
          (auto simp: item_complete_def item_before_terminal_def)
      moreover have "repair_scan prods items (j + 1) =
        (case find (\<lambda>it. item_complete prods it \<or> item_before_terminal prods it) (drop (j + 1) items) of
           None \<Rightarrow> 0 | Some it \<Rightarrow> item_repair prods it)"
        using "1.IH" [OF True] miss
        by (auto simp: item_complete_def item_before_terminal_def)
      ultimately show ?thesis using miss by (simp add: d)
    qed
  qed
qed

text \<open>
  C4. With error repair enabled, the value assigned to a state \<open>S\<close> (\<open>1 \<le> i < COLLCOUNT\<close>)
  is decided by its first item: the negated production number when that item is complete
  (dot at or past the effective length), the token number of the terminal after the dot
  when there is one, and otherwise the value of the first closure item of \<open>S\<close>, in order,
  that is complete or has its dot before a terminal (zero when there is none).
\<close>

theorem build_repair_value:
  assumes "options AND ERRORREPAIR \<noteq> 0" and "1 \<le> i" and "i < length collection"
  shows "build_repair options prods collection ! i =
     (let S = collection ! i; i0 = itemset S ! 0 in
      if item_complete prods i0 then - int (iprod i0)
      else if item_before_terminal prods i0 then token (RHSIDE prods (iprod i0) (dot i0))
      else (case find (\<lambda>it. item_complete prods it \<or> item_before_terminal prods it)
                   (drop (kernel S) (itemset S)) of
              None \<Rightarrow> 0
            | Some it \<Rightarrow> if item_complete prods it then - int (iprod it)
                        else token (RHSIDE prods (iprod it) (dot it))))"
proof -
  have "build_repair options prods collection ! i = repair_state prods (collection ! i)"
    using assms by (simp add: build_repair_def nth_append del: upt_Suc)
  then show ?thesis
    by (auto simp: repair_state_def repair_scan_find Let_def item_complete_def
        item_before_terminal_def item_repair_def split: option.splits)
qed

text \<open>
  A small grammar to run the functions on: terminals \<open>a\<close> (token 1) and \<open>b\<close> (token 2),
  the end marker (token 3), nonterminals \<open>S\<close> (token 4) and \<open>Goal\<close> (token 5), and the
  productions 1: \<open>Goal \<rightarrow> S $\<close>, 2: \<open>S \<rightarrow> a S b\<close>, 3: \<open>S \<rightarrow> \<epsilon>\<close>.
\<close>

definition mk_sym :: "int \<Rightarrow> symtype \<Rightarrow> int \<Rightarrow> int \<Rightarrow> symbolentry" where
  "mk_sym n ty tok ins = \<lparr> order = n, symbol = [], type = ty, token = tok, flags = 0,
     precedence = 0, insert_cost = ins, delete_cost = 1 \<rparr>"

definition sym_a :: symbolentry where "sym_a = mk_sym 0 TERMINAL 1 2"
definition sym_b :: symbolentry where "sym_b = mk_sym 1 TERMINAL 2 3"
definition sym_eof :: symbolentry where "sym_eof = mk_sym 2 TERMINAL 3 1"
definition sym_S :: symbolentry where "sym_S = mk_sym 3 NONTERMINAL 4 0"
definition sym_Goal :: symbolentry where "sym_Goal = mk_sym 4 NONTERMINAL 5 0"

definition mk_prod :: "symbolentry \<Rightarrow> symbolentry list \<Rightarrow> int \<Rightarrow> int \<Rightarrow> production" where
  "mk_prod l r st ins = \<lparr> lhside = l, rhside = r, plength = length r, semantic = 0,
     steps = st, pinsert = ins \<rparr>"

definition ex_prods :: "production list" where
  "ex_prods = [mk_prod sym_Goal [] 0 0,
               mk_prod sym_Goal [sym_S, sym_eof] 2 1,
               mk_prod sym_S [sym_a, sym_S, sym_b] 2 5,
               mk_prod sym_S [] 1 0]"

definition mk_item :: "nat \<Rightarrow> nat \<Rightarrow> nat \<Rightarrow> itementry" where
  "mk_item p d ds = \<lparr> iprod = p, dot = d, descendant_state = ds, descendant_item = 0,
     lookahead = [] \<rparr>"

definition ex_collection :: "configuration list" where
  "ex_collection =
     [\<lparr> itemset = [], kernel = 0, gotos = [] \<rparr>,
      \<lparr> itemset = [mk_item 1 0 2, mk_item 3 0 0, mk_item 2 0 3], kernel = 1, gotos = [] \<rparr>,
      \<lparr> itemset = [mk_item 1 1 0], kernel = 1, gotos = [] \<rparr>,
      \<lparr> itemset = [mk_item 2 1 4, mk_item 2 0 3, mk_item 3 0 0], kernel = 1, gotos = [] \<rparr>,
      \<lparr> itemset = [mk_item 2 2 0], kernel = 1, gotos = [] \<rparr>]"

theorem build_repair_value_witness:
  "(1 :: int) AND ERRORREPAIR \<noteq> 0
   \<and> build_repair 1 ex_prods ex_collection ! 3 = 1
   \<and> build_repair 1 ex_prods ex_collection ! 2 = 3
   \<and> find (\<lambda>it. item_complete ex_prods it \<or> item_before_terminal ex_prods it)
        (drop (kernel (ex_collection ! 3)) (itemset (ex_collection ! 3))) = Some (mk_item 2 0 3)
   \<and> item_before_terminal ex_prods (itemset (ex_collection ! 2) ! 0)
   \<and> \<not> item_complete ex_prods (itemset (ex_collection ! 3) ! 0)
   \<and> \<not> item_before_terminal ex_prods (itemset (ex_collection ! 3) ! 0)"
proof -
  have h: "(1 :: int) AND ERRORREPAIR \<noteq> 0" by (simp add: ERRORREPAIR_def)
  have l: "(3::nat) < length ex_collection" "(2::nat) < length ex_collection"
    by (simp_all add: ex_collection_def)
  have f: "find (\<lambda>it. item_complete ex_prods it \<or> item_before_terminal ex_prods it)
        (drop (kernel (ex_collection ! 3)) (itemset (ex_collection ! 3))) = Some (mk_item 2 0 3)"
    by code_simp
  have c: "item_before_terminal ex_prods (itemset (ex_collection ! 2) ! 0)"
    "\<not> item_complete ex_prods (itemset (ex_collection ! 3) ! 0)"
    "\<not> item_before_terminal ex_prods (itemset (ex_collection ! 3) ! 0)"
    "\<not> item_complete ex_prods (itemset (ex_collection ! 2) ! 0)"
    "\<not> item_complete ex_prods (mk_item 2 0 3)"
    by code_simp+
  have t: "token (RHSIDE ex_prods (iprod (mk_item 2 0 3)) (dot (mk_item 2 0 3))) = 1"
    "token (RHSIDE ex_prods (iprod (itemset (ex_collection ! 2) ! 0)) (dot (itemset (ex_collection ! 2) ! 0))) = 3"
    by code_simp+
  have v3: "build_repair 1 ex_prods ex_collection ! 3 = 1"
    using build_repair_value [OF h _ l(1), of ex_prods] f c t by (simp add: Let_def)
  have v2: "build_repair 1 ex_prods ex_collection ! 2 = 3"
    using build_repair_value [OF h _ l(2), of ex_prods] c t by (simp add: Let_def)
  show ?thesis
    by (intro conjI h v3 v2 f c(1) c(2) c(3))
qed

section \<open>Parser table compression (the table packing tool)\<close>

text \<open>
  The state of the packing loop of \<^verbatim>\<open>main\<close>: \<^verbatim>\<open>tbase\<close>, and the two dynarrays
  \<^verbatim>\<open>tcheck\<close> and \<^verbatim>\<open>tnext\<close>. The lists hold all \<^verbatim>\<open>DYNSIZE\<close> allocated cells (the two
  arrays are allocated and resized together, so they have one size), \<open>tcount\<close> is
  \<^verbatim>\<open>DYNCOUNT\<close>. States and tokens are numbered from 0 here, as in the tool
  (\<^verbatim>\<open>load_actions\<close> stores token \<open>tkn\<close> in column \<open>tkn - 1\<close>); a check cell holds the
  state number plus one.
\<close>

record ptables =
  tbase :: "nat list"
  tcheck :: "int list"
  tnext :: "int list"
  tcount :: nat

text \<open>
  The loop \<^verbatim>\<open>while (DYNCOUNT(*tcheck) + tokens > DYNSIZE(*tcheck))\<close> that doubles both
  arrays and zeroes the new half. With size 0 it would never end; the result is \<open>None\<close>
  then.
\<close>

partial_function (option) grow_tables :: "nat \<Rightarrow> ptables \<Rightarrow> ptables option" where
  "grow_tables tokens t =
     (if tcount t + tokens > length (tcheck t)
      then grow_tables tokens
             (t\<lparr>tcheck := tcheck t @ replicate (length (tcheck t)) 0,
                tnext := tnext t @ replicate (length (tcheck t)) 0\<rparr>)
      else Some t)"

declare grow_tables.simps [code]

text \<open>
  The search for an insertion point: \<open>scan_fit\<close> is the inner loop over \<open>j\<close> (its result
  is the final \<open>j\<close>), \<open>find_base\<close> the outer loop over \<open>i\<close>, left by \<^verbatim>\<open>break\<close> when
  \<open>j \<ge> tokens\<close> and otherwise at \<open>i = DYNCOUNT\<close>.
\<close>

function scan_fit :: "int list \<Rightarrow> int list \<Rightarrow> nat \<Rightarrow> nat \<Rightarrow> nat \<Rightarrow> nat" where
  "scan_fit row chk tokens i j =
     (if j < tokens \<and> (row ! j = 0 \<or> chk ! (i + j) = 0)
      then scan_fit row chk tokens i (j + 1)
      else j)"
  by pat_completeness auto
termination
  by (relation "measure (\<lambda>(row, chk, tokens, i, j). tokens - j)") auto

declare scan_fit.simps [simp del]

function find_base :: "int list \<Rightarrow> int list \<Rightarrow> nat \<Rightarrow> nat \<Rightarrow> nat \<Rightarrow> nat" where
  "find_base row chk tokens cnt i =
     (if i < cnt
      then (if scan_fit row chk tokens i 0 \<ge> tokens then i
            else find_base row chk tokens cnt (i + 1))
      else i)"
  by pat_completeness auto
termination
  by (relation "measure (\<lambda>(row, chk, tokens, cnt, i). cnt - i)") auto

declare find_base.simps [simp del]

text \<open>
  The loop that writes the non-zero entries of the row: \<open>insert_row row state i n t\<close> is
  the state after the iterations \<open>j = 0, ..., n - 1\<close>.
\<close>

primrec insert_row :: "int list \<Rightarrow> nat \<Rightarrow> nat \<Rightarrow> nat \<Rightarrow> ptables \<Rightarrow> ptables" where
  "insert_row row state i 0 t = t"
| "insert_row row state i (Suc j) t =
     (let t' = insert_row row state i j t in
      if row ! j \<noteq> 0
      then t'\<lparr>tcheck := (tcheck t')[i + j := int state + 1],
              tnext := (tnext t')[i + j := row ! j]\<rparr>
      else t')"

definition compress_parser :: "int list list \<Rightarrow> nat \<Rightarrow> nat \<Rightarrow> ptables \<Rightarrow> ptables option" where
  "compress_parser actions state tokens t =
     (case grow_tables tokens t of
        None \<Rightarrow> None
      | Some t1 \<Rightarrow>
          (let i = find_base (actions ! state) (tcheck t1) tokens (tcount t1) 0;
               t2 = insert_row (actions ! state) state i tokens
                      (t1\<lparr>tbase := (tbase t1)[state := i]\<rparr>)
           in Some (if tcount t2 < i + tokens then t2\<lparr>tcount := i + tokens\<rparr> else t2)))"

text \<open>
  \<^verbatim>\<open>sort_parser\<close>: an insertion sort of the state index by decreasing action count. Its
  inner loop \<^verbatim>\<open>for (j = i - 1; j >= 0 && count[index[j]] < count[save]; j--)
  index[j + 1] = index[j]; index[j + 1] = save;\<close> is the shifting loop \<open>shift_up\<close> at
  position \<open>j + 1\<close> with the key \<open>- count[state]\<close>.
\<close>

fun sort_parser_loop :: "int list \<Rightarrow> nat list \<Rightarrow> nat \<Rightarrow> nat \<Rightarrow> nat list" where
  "sort_parser_loop cnt idx i 0 = idx"
| "sort_parser_loop cnt idx i (Suc n) =
     sort_parser_loop cnt (shift_up (\<lambda>s. - (cnt ! s)) idx (idx ! i) i) (i + 1) n"

definition sort_parser :: "int list \<Rightarrow> nat \<Rightarrow> nat list" where
  "sort_parser cnt states = sort_parser_loop cnt [0 ..< states] 1 (states - 1)"

text \<open>
  The loop of \<^verbatim>\<open>main\<close> over the sorted index, from the zeroed initial tables of
  \<^verbatim>\<open>tokens\<close> cells.
\<close>

fun compress_all :: "int list list \<Rightarrow> nat \<Rightarrow> nat list \<Rightarrow> ptables \<Rightarrow> ptables option" where
  "compress_all actions tokens [] t = Some t"
| "compress_all actions tokens (s # ss) t =
     (case compress_parser actions s tokens t of
        None \<Rightarrow> None
      | Some t' \<Rightarrow> compress_all actions tokens ss t')"

definition pack_parser :: "int list list \<Rightarrow> int list \<Rightarrow> nat \<Rightarrow> nat \<Rightarrow> ptables option" where
  "pack_parser actions cnt pnumber tokens =
     compress_all actions tokens (sort_parser cnt pnumber)
       \<lparr>tbase = replicate pnumber 0, tcheck = replicate tokens 0,
        tnext = replicate tokens 0, tcount = 0\<rparr>"


lemma grow_tables_result:
  assumes "tokens \<le> length (tcheck t)" and "tcount t \<le> length (tcheck t)"
  shows "\<exists>n. grow_tables tokens t
            = Some (t\<lparr>tcheck := tcheck t @ replicate n 0, tnext := tnext t @ replicate n 0\<rparr>)
          \<and> tcount t + tokens \<le> length (tcheck t) + n"
  using assms
proof (induction "tcount t + tokens - length (tcheck t)" arbitrary: t rule: less_induct)
  case less
  show ?case
  proof (cases "tcount t + tokens > length (tcheck t)")
    case False
    then have "grow_tables tokens t = Some t" by (subst grow_tables.simps) simp
    then have "grow_tables tokens t
            = Some (t\<lparr>tcheck := tcheck t @ replicate 0 0, tnext := tnext t @ replicate 0 0\<rparr>)"
      by simp
    with False show ?thesis by (metis add.right_neutral not_less)
  next
    case True
    let ?sz = "length (tcheck t)"
    let ?t' = "t\<lparr>tcheck := tcheck t @ replicate ?sz 0, tnext := tnext t @ replicate ?sz 0\<rparr>"
    have pos: "?sz > 0" using True less.prems by linarith
    have u: "grow_tables tokens t = grow_tables tokens ?t'"
      using True by (subst grow_tables.simps) simp
    have "length (tcheck ?t') = ?sz + ?sz" "tcount ?t' = tcount t" by simp_all
    then have m: "tcount ?t' + tokens - length (tcheck ?t') < tcount t + tokens - length (tcheck t)"
      using True pos by linarith
    have p: "tokens \<le> length (tcheck ?t')" "tcount ?t' \<le> length (tcheck ?t')"
      using less.prems by simp_all
    from less.hyps [OF m p] obtain n where
      n: "grow_tables tokens ?t'
            = Some (?t'\<lparr>tcheck := tcheck ?t' @ replicate n 0, tnext := tnext ?t' @ replicate n 0\<rparr>)"
        "tcount ?t' + tokens \<le> length (tcheck ?t') + n"
      by blast
    have "?t'\<lparr>tcheck := tcheck ?t' @ replicate n 0, tnext := tnext ?t' @ replicate n 0\<rparr>
          = t\<lparr>tcheck := tcheck t @ replicate (?sz + n) 0, tnext := tnext t @ replicate (?sz + n) 0\<rparr>"
      by (simp add: replicate_add)
    with u n show ?thesis
      by (intro exI [of _ "?sz + n"]) simp
  qed
qed

text \<open>Row \<open>row\<close> fits at displacement \<open>i\<close>: every non-zero entry meets a free check cell.\<close>

definition fits :: "int list \<Rightarrow> int list \<Rightarrow> nat \<Rightarrow> nat \<Rightarrow> bool" where
  "fits row chk tokens i = (\<forall>j < tokens. row ! j = 0 \<or> chk ! (i + j) = 0)"

lemma scan_fit_spec:
  "j \<le> tokens \<Longrightarrow>
   (scan_fit row chk tokens i j \<ge> tokens)
     = (\<forall>j'. j \<le> j' \<and> j' < tokens \<longrightarrow> row ! j' = 0 \<or> chk ! (i + j') = 0)"
proof (induction row chk tokens i j rule: scan_fit.induct)
  case (1 row chk tokens i j)
  show ?case
  proof (cases "j < tokens \<and> (row ! j = 0 \<or> chk ! (i + j) = 0)")
    case True
    then have u: "scan_fit row chk tokens i j = scan_fit row chk tokens i (j + 1)"
      by (subst scan_fit.simps) simp
    have "(\<forall>j'. j \<le> j' \<and> j' < tokens \<longrightarrow> row ! j' = 0 \<or> chk ! (i + j') = 0)
          = (\<forall>j'. j + 1 \<le> j' \<and> j' < tokens \<longrightarrow> row ! j' = 0 \<or> chk ! (i + j') = 0)"
      (is "?L = ?R")
    proof
      assume l: ?L
      show ?R
      proof (intro allI impI)
        fix j' assume "j + 1 \<le> j' \<and> j' < tokens"
        then have "j \<le> j' \<and> j' < tokens" by linarith
        with l show "row ! j' = 0 \<or> chk ! (i + j') = 0" by blast
      qed
    next
      assume r: ?R
      show ?L
      proof (intro allI impI)
        fix j' assume a: "j \<le> j' \<and> j' < tokens"
        show "row ! j' = 0 \<or> chk ! (i + j') = 0"
        proof (cases "j' = j")
          case True
          with \<open>j < tokens \<and> (row ! j = 0 \<or> chk ! (i + j) = 0)\<close> show ?thesis by simp
        next
          case False
          with a have "j + 1 \<le> j' \<and> j' < tokens" by linarith
          with r show ?thesis by blast
        qed
      qed
    qed
    moreover have "j + 1 \<le> tokens" using True by linarith
    ultimately show ?thesis using "1.IH" [OF True] u by simp
  next
    case False
    then have u: "scan_fit row chk tokens i j = j"
      by (subst scan_fit.simps) auto
    show ?thesis
    proof (cases "j < tokens")
      case True
      with False have "\<not> (row ! j = 0 \<or> chk ! (i + j) = 0)" by simp
      with True u show ?thesis by auto
    next
      case False
      with "1.prems" u show ?thesis by auto
    qed
  qed
qed

lemma scan_fit_fits: "(scan_fit row chk tokens i 0 \<ge> tokens) = fits row chk tokens i"
  using scan_fit_spec [of 0 tokens row chk i] by (simp add: fits_def)

lemma find_base_spec:
  "i \<le> cnt \<Longrightarrow>
   i \<le> find_base row chk tokens cnt i \<and> find_base row chk tokens cnt i \<le> cnt
   \<and> (find_base row chk tokens cnt i < cnt \<longrightarrow> fits row chk tokens (find_base row chk tokens cnt i))"
proof (induction row chk tokens cnt i rule: find_base.induct)
  case (1 row chk tokens cnt i)
  show ?case
  proof (cases "i < cnt")
    case False
    then have "find_base row chk tokens cnt i = i" by (subst find_base.simps) simp
    with False "1.prems" show ?thesis by simp
  next
    case True
    show ?thesis
    proof (cases "scan_fit row chk tokens i 0 \<ge> tokens")
      case fit: True
      then have "find_base row chk tokens cnt i = i"
        using True by (subst find_base.simps) simp
      with True fit show ?thesis by (simp add: scan_fit_fits)
    next
      case nofit: False
      then have "find_base row chk tokens cnt i = find_base row chk tokens cnt (i + 1)"
        using True by (subst find_base.simps) simp
      with "1.IH" [OF True nofit] True show ?thesis by simp
    qed
  qed
qed

lemma insert_row_fields:
  "tbase (insert_row row s i n t) = tbase t \<and> tcount (insert_row row s i n t) = tcount t
   \<and> length (tcheck (insert_row row s i n t)) = length (tcheck t)
   \<and> length (tnext (insert_row row s i n t)) = length (tnext t)"
  by (induction n) (simp_all add: Let_def)

lemma insert_row_check:
  "i + n \<le> length (tcheck t) \<Longrightarrow> k < length (tcheck t) \<Longrightarrow>
   tcheck (insert_row row s i n t) ! k
     = (if i \<le> k \<and> k < i + n \<and> row ! (k - i) \<noteq> 0 then int s + 1 else tcheck t ! k)"
proof (induction n)
  case 0
  then show ?case by simp
next
  case (Suc n)
  have l: "length (tcheck (insert_row row s i n t)) = length (tcheck t)"
    using insert_row_fields by blast
  from Suc have IH: "tcheck (insert_row row s i n t) ! k
     = (if i \<le> k \<and> k < i + n \<and> row ! (k - i) \<noteq> 0 then int s + 1 else tcheck t ! k)"
    by simp
  show ?case
  proof (cases "k = i + n")
    case True
    with Suc.prems l IH show ?thesis by (simp add: Let_def)
  next
    case False
    then have "(k < i + Suc n) = (k < i + n)" by linarith
    with False Suc.prems l IH show ?thesis by (simp add: Let_def)
  qed
qed

lemma insert_row_next:
  "i + n \<le> length (tnext t) \<Longrightarrow> k < length (tnext t) \<Longrightarrow>
   tnext (insert_row row s i n t) ! k
     = (if i \<le> k \<and> k < i + n \<and> row ! (k - i) \<noteq> 0 then row ! (k - i) else tnext t ! k)"
proof (induction n)
  case 0
  then show ?case by simp
next
  case (Suc n)
  have l: "length (tnext (insert_row row s i n t)) = length (tnext t)"
    using insert_row_fields by blast
  from Suc have IH: "tnext (insert_row row s i n t) ! k
     = (if i \<le> k \<and> k < i + n \<and> row ! (k - i) \<noteq> 0 then row ! (k - i) else tnext t ! k)"
    by simp
  show ?case
  proof (cases "k = i + n")
    case True
    with Suc.prems l IH show ?thesis by (simp add: Let_def)
  next
    case False
    then have "(k < i + Suc n) = (k < i + n)" by linarith
    with False Suc.prems l IH show ?thesis by (simp add: Let_def)
  qed
qed

text \<open>
  The invariant of the packing loop, for the set \<open>seen\<close> of states packed so far: the cells
  from \<^verbatim>\<open>DYNCOUNT\<close> on are free, every occupied check cell belongs to a non-zero action
  of one packed state, and every non-zero action of a packed state is in its cell.
\<close>

definition packed :: "int list list \<Rightarrow> nat \<Rightarrow> nat set \<Rightarrow> ptables \<Rightarrow> bool" where
  "packed actions tokens seen t =
     (length (tnext t) = length (tcheck t) \<and> tokens \<le> length (tcheck t)
      \<and> tcount t \<le> length (tcheck t)
      \<and> (\<forall>k. tcount t \<le> k \<and> k < length (tcheck t) \<longrightarrow> tcheck t ! k = 0)
      \<and> (\<forall>k < length (tcheck t). tcheck t ! k \<noteq> 0 \<longrightarrow>
            (\<exists>s \<in> seen. \<exists>j < tokens. actions ! s ! j \<noteq> 0 \<and> k = tbase t ! s + j
                \<and> tcheck t ! k = int s + 1))
      \<and> (\<forall>s \<in> seen. \<forall>j < tokens. actions ! s ! j \<noteq> 0 \<longrightarrow>
            tcheck t ! (tbase t ! s + j) = int s + 1
            \<and> tnext t ! (tbase t ! s + j) = actions ! s ! j)
      \<and> (\<forall>s \<in> seen. tbase t ! s + tokens \<le> tcount t))"

lemma packed_grow:
  assumes p: "packed actions tokens seen t"
  shows "packed actions tokens seen
           (t\<lparr>tcheck := tcheck t @ replicate n 0, tnext := tnext t @ replicate n 0\<rparr>)"
proof -
  let ?t = "t\<lparr>tcheck := tcheck t @ replicate n 0, tnext := tnext t @ replicate n 0\<rparr>"
  from p have l: "length (tnext t) = length (tcheck t)" "tokens \<le> length (tcheck t)"
    "tcount t \<le> length (tcheck t)"
    and z: "\<And>k. tcount t \<le> k \<Longrightarrow> k < length (tcheck t) \<Longrightarrow> tcheck t ! k = 0"
    and own: "\<And>k. k < length (tcheck t) \<Longrightarrow> tcheck t ! k \<noteq> 0 \<Longrightarrow>
            (\<exists>s \<in> seen. \<exists>j < tokens. actions ! s ! j \<noteq> 0 \<and> k = tbase t ! s + j
                \<and> tcheck t ! k = int s + 1)"
    and cell: "\<And>s j. s \<in> seen \<Longrightarrow> j < tokens \<Longrightarrow> actions ! s ! j \<noteq> 0 \<Longrightarrow>
            tcheck t ! (tbase t ! s + j) = int s + 1
            \<and> tnext t ! (tbase t ! s + j) = actions ! s ! j"
    and top: "\<And>s. s \<in> seen \<Longrightarrow> tbase t ! s + tokens \<le> tcount t"
    unfolding packed_def by blast+
  have c1: "length (tnext ?t) = length (tcheck ?t)" "tokens \<le> length (tcheck ?t)"
    "tcount ?t \<le> length (tcheck ?t)" using l by simp_all
  have c2: "\<forall>k. tcount ?t \<le> k \<and> k < length (tcheck ?t) \<longrightarrow> tcheck ?t ! k = 0"
  proof (intro allI impI)
    fix k assume a: "tcount ?t \<le> k \<and> k < length (tcheck ?t)"
    show "tcheck ?t ! k = 0"
    proof (cases "k < length (tcheck t)")
      case True
      with a z [of k] show ?thesis by (simp add: nth_append)
    next
      case False
      from a have "k < length (tcheck t) + n" by simp
      with False have "k - length (tcheck t) < n" by linarith
      with False show ?thesis by (simp add: nth_append)
    qed
  qed
  have c3: "\<forall>k < length (tcheck ?t). tcheck ?t ! k \<noteq> 0 \<longrightarrow>
            (\<exists>s \<in> seen. \<exists>j < tokens. actions ! s ! j \<noteq> 0 \<and> k = tbase ?t ! s + j
                \<and> tcheck ?t ! k = int s + 1)"
  proof (intro allI impI)
    fix k assume a: "k < length (tcheck ?t)" and nz: "tcheck ?t ! k \<noteq> 0"
    have k: "k < length (tcheck t)"
    proof (rule ccontr)
      assume nk: "\<not> k < length (tcheck t)"
      from a have "k < length (tcheck t) + n" by simp
      with nk have "k - length (tcheck t) < n" by linarith
      with nk have "tcheck ?t ! k = 0" by (simp add: nth_append)
      with nz show False by simp
    qed
    with nz have "tcheck t ! k \<noteq> 0" by (simp add: nth_append)
    from own [OF k this] k
    show "\<exists>s \<in> seen. \<exists>j < tokens. actions ! s ! j \<noteq> 0 \<and> k = tbase ?t ! s + j
                \<and> tcheck ?t ! k = int s + 1"
      by (simp add: nth_append)
  qed
  have c4: "\<forall>s \<in> seen. \<forall>j < tokens. actions ! s ! j \<noteq> 0 \<longrightarrow>
            tcheck ?t ! (tbase ?t ! s + j) = int s + 1
            \<and> tnext ?t ! (tbase ?t ! s + j) = actions ! s ! j"
  proof (intro ballI allI impI)
    fix s j assume a: "s \<in> seen" "j < tokens" "actions ! s ! j \<noteq> 0"
    from top [OF a(1)] a(2) l have "tbase t ! s + j < length (tcheck t)" by linarith
    with cell [OF a] l(1)
    show "tcheck ?t ! (tbase ?t ! s + j) = int s + 1
            \<and> tnext ?t ! (tbase ?t ! s + j) = actions ! s ! j"
      by (simp add: nth_append)
  qed
  have c5: "\<forall>s \<in> seen. tbase ?t ! s + tokens \<le> tcount ?t"
    using top by simp
  show ?thesis
    unfolding packed_def using c1 c2 c3 c4 c5 by blast
qed

lemma packed_insert:
  assumes p: "packed actions tokens seen t"
    and room: "tcount t + tokens \<le> length (tcheck t)"
    and s: "s \<notin> seen" "s < length (tbase t)"
    and i: "i \<le> tcount t" "fits (actions ! s) (tcheck t) tokens i"
    and t2: "t2 = insert_row (actions ! s) s i tokens (t\<lparr>tbase := (tbase t)[s := i]\<rparr>)"
    and t': "t' = (if tcount t2 < i + tokens then t2\<lparr>tcount := i + tokens\<rparr> else t2)"
  shows "packed actions tokens (insert s seen) t' \<and> length (tbase t') = length (tbase t)"
proof -
  let ?row = "actions ! s"
  let ?t0 = "t\<lparr>tbase := (tbase t)[s := i]\<rparr>"
  from p have l: "length (tnext t) = length (tcheck t)" "tokens \<le> length (tcheck t)"
    "tcount t \<le> length (tcheck t)"
    and z: "\<And>k. tcount t \<le> k \<Longrightarrow> k < length (tcheck t) \<Longrightarrow> tcheck t ! k = 0"
    and own: "\<And>k. k < length (tcheck t) \<Longrightarrow> tcheck t ! k \<noteq> 0 \<Longrightarrow>
            (\<exists>s \<in> seen. \<exists>j < tokens. actions ! s ! j \<noteq> 0 \<and> k = tbase t ! s + j
                \<and> tcheck t ! k = int s + 1)"
    and cell: "\<And>s j. s \<in> seen \<Longrightarrow> j < tokens \<Longrightarrow> actions ! s ! j \<noteq> 0 \<Longrightarrow>
            tcheck t ! (tbase t ! s + j) = int s + 1
            \<and> tnext t ! (tbase t ! s + j) = actions ! s ! j"
    and top: "\<And>s. s \<in> seen \<Longrightarrow> tbase t ! s + tokens \<le> tcount t"
    unfolding packed_def by blast+
  have sz: "i + tokens \<le> length (tcheck t)" using i(1) room by linarith
  have f2: "tbase t2 = (tbase t)[s := i]" "tcount t2 = tcount t"
    "length (tcheck t2) = length (tcheck t)" "length (tnext t2) = length (tnext t)"
    unfolding t2 using insert_row_fields [of ?row s i tokens ?t0] by simp_all
  have B: "tbase t' = (tbase t)[s := i]" and C0: "tcheck t' = tcheck t2" and N0: "tnext t' = tnext t2"
    and cnt: "tcount t' = max (tcount t) (i + tokens)"
    unfolding t' using f2 by auto
  have Bs: "tbase t' ! s = i" using B s(2) by simp
  have Bo: "\<And>s'. s' \<noteq> s \<Longrightarrow> tbase t' ! s' = tbase t ! s'" using B by simp
  have C: "\<And>k. k < length (tcheck t) \<Longrightarrow> tcheck t' ! k
         = (if i \<le> k \<and> k < i + tokens \<and> ?row ! (k - i) \<noteq> 0 then int s + 1 else tcheck t ! k)"
    unfolding C0 t2 using insert_row_check [of i tokens ?t0 _ ?row s] sz by simp
  have N: "\<And>k. k < length (tcheck t) \<Longrightarrow> tnext t' ! k
         = (if i \<le> k \<and> k < i + tokens \<and> ?row ! (k - i) \<noteq> 0 then ?row ! (k - i) else tnext t ! k)"
    unfolding N0 t2 using insert_row_next [of i tokens ?t0 _ ?row s] sz l(1) by simp
  have free: "\<And>k. i \<le> k \<Longrightarrow> k < i + tokens \<Longrightarrow> ?row ! (k - i) \<noteq> 0 \<Longrightarrow> tcheck t ! k = 0"
  proof -
    fix k assume a: "i \<le> k" "k < i + tokens" "?row ! (k - i) \<noteq> 0"
    then have "k - i < tokens" by linarith
    with i(2) a(3) have "tcheck t ! (i + (k - i)) = 0" unfolding fits_def by blast
    with a(1) show "tcheck t ! k = 0" by simp
  qed
  have c1: "length (tnext t') = length (tcheck t')" "tokens \<le> length (tcheck t')"
    "tcount t' \<le> length (tcheck t')"
    using l f2 C0 N0 cnt sz by simp_all
  have len': "length (tcheck t') = length (tcheck t)" using C0 f2 by simp
  have c2: "\<forall>k. tcount t' \<le> k \<and> k < length (tcheck t') \<longrightarrow> tcheck t' ! k = 0"
  proof (intro allI impI)
    fix k assume a: "tcount t' \<le> k \<and> k < length (tcheck t')"
    with cnt len' have k: "tcount t \<le> k" "i + tokens \<le> k" "k < length (tcheck t)" by simp_all
    from C [OF k(3)] k(2) have "tcheck t' ! k = tcheck t ! k" by simp
    with z [OF k(1) k(3)] show "tcheck t' ! k = 0" by simp
  qed
  have c3: "\<forall>k < length (tcheck t'). tcheck t' ! k \<noteq> 0 \<longrightarrow>
            (\<exists>s' \<in> insert s seen. \<exists>j < tokens. actions ! s' ! j \<noteq> 0 \<and> k = tbase t' ! s' + j
                \<and> tcheck t' ! k = int s' + 1)"
  proof (intro allI impI)
    fix k assume a: "k < length (tcheck t')" and nz: "tcheck t' ! k \<noteq> 0"
    from a len' have k: "k < length (tcheck t)" by simp
    show "\<exists>s' \<in> insert s seen. \<exists>j < tokens. actions ! s' ! j \<noteq> 0 \<and> k = tbase t' ! s' + j
                \<and> tcheck t' ! k = int s' + 1"
    proof (cases "i \<le> k \<and> k < i + tokens \<and> ?row ! (k - i) \<noteq> 0")
      case True
      then have "k - i < tokens" by linarith
      moreover have "k = tbase t' ! s + (k - i)" using Bs True by simp
      moreover from C [OF k] True have "tcheck t' ! k = int s + 1" by simp
      ultimately show ?thesis using True by blast
    next
      case False
      with C [OF k] have e: "tcheck t' ! k = tcheck t ! k" by simp
      with nz have "tcheck t ! k \<noteq> 0" by simp
      from own [OF k this] obtain s' j where
        o: "s' \<in> seen" "j < tokens" "actions ! s' ! j \<noteq> 0" "k = tbase t ! s' + j"
           "tcheck t ! k = int s' + 1"
        by blast
      from o(1) s(1) have "s' \<noteq> s" by blast
      from Bo [OF this] o(4) have "k = tbase t' ! s' + j" by simp
      moreover from e o(5) have "tcheck t' ! k = int s' + 1" by simp
      moreover from o(1) have "s' \<in> insert s seen" by simp
      ultimately show ?thesis using o(2,3) by blast
    qed
  qed
  have c4: "\<forall>s' \<in> insert s seen. \<forall>j < tokens. actions ! s' ! j \<noteq> 0 \<longrightarrow>
            tcheck t' ! (tbase t' ! s' + j) = int s' + 1
            \<and> tnext t' ! (tbase t' ! s' + j) = actions ! s' ! j"
  proof (intro ballI allI impI)
    fix s' j assume a: "s' \<in> insert s seen" "j < tokens" "actions ! s' ! j \<noteq> 0"
    show "tcheck t' ! (tbase t' ! s' + j) = int s' + 1
            \<and> tnext t' ! (tbase t' ! s' + j) = actions ! s' ! j"
    proof (cases "s' = s")
      case True
      have k: "i + j < length (tcheck t)" using a(2) sz by linarith
      from C [OF k] N [OF k] a(2,3) True Bs show ?thesis by simp
    next
      case False
      with a(1) have d: "s' \<in> seen" by simp
      let ?k = "tbase t ! s' + j"
      from top [OF d] a(2) l(3) have k: "?k < length (tcheck t)" by linarith
      from cell [OF d a(2,3)] have v: "tcheck t ! ?k = int s' + 1" "tnext t ! ?k = actions ! s' ! j"
        by simp_all
      have nw: "\<not> (i \<le> ?k \<and> ?k < i + tokens \<and> ?row ! (?k - i) \<noteq> 0)"
      proof
        assume "i \<le> ?k \<and> ?k < i + tokens \<and> ?row ! (?k - i) \<noteq> 0"
        with free [of ?k] have "tcheck t ! ?k = 0" by blast
        with v(1) show False by simp
      qed
      from C [OF k] N [OF k] nw v Bo [OF False] show ?thesis by simp
    qed
  qed
  have c5: "\<forall>s' \<in> insert s seen. tbase t' ! s' + tokens \<le> tcount t'"
  proof
    fix s' assume a: "s' \<in> insert s seen"
    show "tbase t' ! s' + tokens \<le> tcount t'"
    proof (cases "s' = s")
      case True
      with Bs cnt show ?thesis by simp
    next
      case False
      with a have "s' \<in> seen" by simp
      from top [OF this] Bo [OF False] cnt show ?thesis by simp
    qed
  qed
  have "packed actions tokens (insert s seen) t'"
    unfolding packed_def using c1 c2 c3 c4 c5 by blast
  moreover have "length (tbase t') = length (tbase t)" using B by simp
  ultimately show ?thesis by simp
qed

lemma compress_parser_step:
  assumes p: "packed actions tokens seen t" and s: "s \<notin> seen" "s < length (tbase t)"
  shows "\<exists>t'. compress_parser actions s tokens t = Some t'
            \<and> packed actions tokens (insert s seen) t' \<and> length (tbase t') = length (tbase t)"
proof -
  from p have l: "tokens \<le> length (tcheck t)" "tcount t \<le> length (tcheck t)"
    unfolding packed_def by blast+
  from grow_tables_result [OF l] obtain n where
    g: "grow_tables tokens t
          = Some (t\<lparr>tcheck := tcheck t @ replicate n 0, tnext := tnext t @ replicate n 0\<rparr>)"
    and room: "tcount t + tokens \<le> length (tcheck t) + n"
    by blast
  let ?t1 = "t\<lparr>tcheck := tcheck t @ replicate n 0, tnext := tnext t @ replicate n 0\<rparr>"
  let ?i = "find_base (actions ! s) (tcheck ?t1) tokens (tcount ?t1) 0"
  let ?t2 = "insert_row (actions ! s) s ?i tokens (?t1\<lparr>tbase := (tbase ?t1)[s := ?i]\<rparr>)"
  let ?t' = "if tcount ?t2 < ?i + tokens then ?t2\<lparr>tcount := ?i + tokens\<rparr> else ?t2"
  have p1: "packed actions tokens seen ?t1" by (rule packed_grow [OF p])
  have room1: "tcount ?t1 + tokens \<le> length (tcheck ?t1)" using room by simp
  from find_base_spec [of 0 "tcount ?t1" "actions ! s" "tcheck ?t1" tokens]
  have fb: "?i \<le> tcount ?t1" "?i < tcount ?t1 \<longrightarrow> fits (actions ! s) (tcheck ?t1) tokens ?i"
    by simp_all
  have ft: "fits (actions ! s) (tcheck ?t1) tokens ?i"
  proof (cases "?i < tcount ?t1")
    case True
    with fb(2) show ?thesis by blast
  next
    case False
    with fb(1) have e: "?i = tcount ?t1" by linarith
    from p1 have z: "\<And>k. tcount ?t1 \<le> k \<Longrightarrow> k < length (tcheck ?t1) \<Longrightarrow> tcheck ?t1 ! k = 0"
      unfolding packed_def by blast
    show ?thesis
      unfolding fits_def
    proof (intro allI impI)
      fix j assume "j < tokens"
      with room1 e have "tcount ?t1 \<le> ?i + j" "?i + j < length (tcheck ?t1)" by linarith+
      from z [OF this] show "actions ! s ! j = 0 \<or> tcheck ?t1 ! (?i + j) = 0" by blast
    qed
  qed
  have s1: "s < length (tbase ?t1)" using s(2) by simp
  from packed_insert [OF p1 room1 s(1) s1 fb(1) ft refl refl]
  have r: "packed actions tokens (insert s seen) ?t'" "length (tbase ?t') = length (tbase ?t1)"
    by blast+
  have "compress_parser actions s tokens t = Some ?t'"
    unfolding compress_parser_def using g by (simp add: Let_def)
  with r show ?thesis by simp
qed

lemma compress_all_packed:
  "packed actions tokens seen t \<Longrightarrow> distinct ss \<Longrightarrow> set ss \<inter> seen = {} \<Longrightarrow>
   \<forall>s \<in> set ss. s < length (tbase t) \<Longrightarrow>
   \<exists>t'. compress_all actions tokens ss t = Some t'
        \<and> packed actions tokens (seen \<union> set ss) t' \<and> length (tbase t') = length (tbase t)"
proof (induction ss arbitrary: t seen)
  case Nil
  then show ?case by simp
next
  case (Cons s ss)
  from Cons.prems have s: "s \<notin> seen" "s < length (tbase t)" by auto
  from compress_parser_step [OF Cons.prems(1) s] obtain t1 where
    t1: "compress_parser actions s tokens t = Some t1"
      "packed actions tokens (insert s seen) t1" "length (tbase t1) = length (tbase t)"
    by blast
  have d: "distinct ss" "set ss \<inter> insert s seen = {}" "\<forall>x \<in> set ss. x < length (tbase t1)"
    using Cons.prems t1(3) by auto
  from Cons.IH [OF t1(2) d] obtain t' where
    t': "compress_all actions tokens ss t1 = Some t'"
      "packed actions tokens (insert s seen \<union> set ss) t'" "length (tbase t') = length (tbase t1)"
    by blast
  have "insert s seen \<union> set ss = seen \<union> set (s # ss)" by auto
  with t1 t' show ?case by simp
qed

lemma shift_up_perm:
  "i \<le> length orig \<Longrightarrow>
   \<exists>j \<le> i. shift_up key (take i orig @ x # drop i orig) v i = take j orig @ v # drop j orig"
proof (induction i arbitrary: x)
  case 0
  have "shift_up key (x # orig) v 0 = v # orig"
    by (subst shift_up.simps) simp
  then show ?case by simp
next
  case (Suc i)
  let ?xs = "take (Suc i) orig @ x # drop (Suc i) orig"
  have i: "i < length orig" using Suc.prems by simp
  have nth: "?xs ! i = orig ! i" using i by (simp add: nth_append)
  show ?case
  proof (cases "key (orig ! i) > key v")
    case True
    have upd: "?xs[Suc i := ?xs ! i] = take i orig @ (orig ! i) # drop i orig"
      using i nth
      by (simp add: list_update_append take_Suc_conv_app_nth Cons_nth_drop_Suc)
    have "shift_up key ?xs v (Suc i) = shift_up key (take i orig @ (orig ! i) # drop i orig) v i"
      using True nth upd by (subst shift_up.simps) simp
    moreover from Suc.IH [of "orig ! i"] i
    obtain j where "j \<le> i"
      "shift_up key (take i orig @ (orig ! i) # drop i orig) v i = take j orig @ v # drop j orig"
      by auto
    ultimately show ?thesis by (metis le_SucI)
  next
    case False
    have "shift_up key ?xs v (Suc i) = ?xs[Suc i := v]"
      using False nth by (subst shift_up.simps) simp
    also have "\<dots> = take (Suc i) orig @ v # drop (Suc i) orig"
      using i by (simp add: list_update_append)
    finally show ?thesis by blast
  qed
qed

lemma shift_up_mset:
  assumes "i < length xs"
  shows "mset (shift_up key xs (xs ! i) i) = mset xs
       \<and> length (shift_up key xs (xs ! i) i) = length xs"
proof -
  define orig where "orig = take i xs @ drop (Suc i) xs"
  have to: "take i orig = take i xs" "drop i orig = drop (Suc i) xs" "length orig = length xs - 1"
    using assms by (simp_all add: orig_def)
  have xs: "xs = take i orig @ xs ! i # drop i orig"
    using assms by (simp add: to id_take_nth_drop [symmetric])
  have "i \<le> length orig" using assms to(3) by simp
  from shift_up_perm [OF this, of key "xs ! i" "xs ! i"] xs
  obtain j where j: "shift_up key xs (xs ! i) i = take j orig @ xs ! i # drop j orig"
    by auto
  have "mset (take j orig @ xs ! i # drop j orig) = add_mset (xs ! i) (mset (take j orig @ drop j orig))"
    by (simp del: append_take_drop_id)
  then have m1: "mset (shift_up key xs (xs ! i) i) = add_mset (xs ! i) (mset orig)"
    using j by simp
  have "length (take j orig @ xs ! i # drop j orig) = Suc (length (take j orig @ drop j orig))"
    by (simp del: append_take_drop_id)
  then have l1: "length (shift_up key xs (xs ! i) i) = Suc (length orig)"
    using j by simp
  have "mset (take i orig @ xs ! i # drop i orig) = add_mset (xs ! i) (mset (take i orig @ drop i orig))"
    by (simp del: append_take_drop_id)
  then have m2: "mset xs = add_mset (xs ! i) (mset orig)"
    using xs by simp
  have l2: "length xs = Suc (length orig)" using assms to(3) by simp
  from m1 m2 l1 l2 show ?thesis by simp
qed

lemma sort_parser_loop_mset:
  "i + n = length idx \<Longrightarrow>
   mset (sort_parser_loop cnt idx i n) = mset idx"
proof (induction n arbitrary: idx i)
  case 0
  then show ?case by simp
next
  case (Suc n)
  have i: "i < length idx" using Suc.prems by simp
  from shift_up_mset [OF i, of "\<lambda>s. - (cnt ! s)"] Suc.prems
  have "mset (shift_up (\<lambda>s. - (cnt ! s)) idx (idx ! i) i) = mset idx"
    "(i + 1) + n = length (shift_up (\<lambda>s. - (cnt ! s)) idx (idx ! i) i)"
    by simp_all
  with Suc.IH [of "i + 1" "shift_up (\<lambda>s. - (cnt ! s)) idx (idx ! i) i"] show ?case by simp
qed

lemma sort_parser_perm:
  "mset (sort_parser cnt states) = mset [0 ..< states]"
proof (cases "states = 0")
  case True
  then show ?thesis by (simp add: sort_parser_def)
next
  case False
  then have "1 + (states - 1) = length [0 ..< states]" by simp
  from sort_parser_loop_mset [OF this] show ?thesis by (simp add: sort_parser_def)
qed

lemma sort_parser_states:
  "distinct (sort_parser cnt states) \<and> set (sort_parser cnt states) = {0 ..< states}"
proof -
  have "distinct (sort_parser cnt states) = distinct [0 ..< states]"
    using sort_parser_perm by (rule mset_eq_imp_distinct_iff)
  moreover have "set (sort_parser cnt states) = set [0 ..< states]"
    using sort_parser_perm by (rule mset_eq_setD)
  ultimately show ?thesis by simp
qed

lemma pack_parser_packed:
  "\<exists>t. pack_parser actions cnt pnumber tokens = Some t
       \<and> packed actions tokens {0 ..< pnumber} t \<and> length (tbase t) = pnumber"
proof -
  let ?t0 = "\<lparr>tbase = replicate pnumber 0, tcheck = replicate tokens 0,
        tnext = replicate tokens 0, tcount = 0\<rparr>"
  have p0: "packed actions tokens {} ?t0" by (simp add: packed_def)
  from sort_parser_states [of cnt pnumber]
  have d: "distinct (sort_parser cnt pnumber)" "set (sort_parser cnt pnumber) \<inter> {} = {}"
    "\<forall>s \<in> set (sort_parser cnt pnumber). s < length (tbase ?t0)"
    by simp_all
  from compress_all_packed [OF p0 d] sort_parser_states [of cnt pnumber]
  show ?thesis by (simp add: pack_parser_def)
qed

text \<open>
  What the runtime reads. The formatting tool writes \<^verbatim>\<open>Pbase\<close>, \<^verbatim>\<open>Pcheck\<close> and
  \<^verbatim>\<open>Pnext\<close> as base-1 arrays (\<^verbatim>\<open>write_table\<close> with \<^verbatim>\<open>base == 1\<close> writes a leading 0), from
  the \<^verbatim>\<open>DYNCOUNT\<close> cells the packing tool wrote; the runtime numbers states and tokens from 1.
  \<open>decompress\<close> is the decoding rule of the specification: \<open>entry = base[s] + t\<close>, the
  result is \<open>next[entry]\<close> if \<open>check[entry] = s\<close> and the error entry 0 otherwise.
\<close>

definition format_base1 :: "int list \<Rightarrow> int list" where
  "format_base1 table = 0 # table"

definition load_parser :: "ptables \<Rightarrow> sdt_tables \<Rightarrow> sdt_tables" where
  "load_parser t tables =
     tables\<lparr>pbase := format_base1 (map int (tbase t)),
            pcheck := format_base1 (take (tcount t) (tcheck t)),
            pnext := format_base1 (take (tcount t) (tnext t))\<rparr>"

definition decompress :: "sdt_tables \<Rightarrow> int \<Rightarrow> int \<Rightarrow> int" where
  "decompress tables s t =
     (let entry = rd (pbase tables) s + t in
      if rd (pcheck tables) entry = s then rd (pnext tables) entry else 0)"

lemma rd_format_base1: "rd (format_base1 xs) (int n + 1) = xs ! n"
proof -
  have "nat (int n + 1) = Suc n" by simp
  then show ?thesis by (simp add: rd_def format_base1_def)
qed

lemma packed_roundtrip:
  assumes p: "packed actions tokens seen t" and s: "s \<in> seen" "s < length (tbase t)"
    and j: "j < tokens"
  shows "(actions ! s ! j \<noteq> 0 \<longrightarrow>
            tcheck t ! (tbase t ! s + j) = int s + 1
            \<and> tnext t ! (tbase t ! s + j) = actions ! s ! j)
       \<and> (actions ! s ! j = 0 \<longrightarrow> tcheck t ! (tbase t ! s + j) \<noteq> int s + 1)
       \<and> (rd (pcheck (load_parser t tables))
              (rd (pbase (load_parser t tables)) (int s + 1) + (int j + 1)) = int s + 1)
           = (actions ! s ! j \<noteq> 0)
       \<and> decompress (load_parser t tables) (int s + 1) (int j + 1) = actions ! s ! j"
proof -
  let ?k = "tbase t ! s + j"
  from p have l: "length (tnext t) = length (tcheck t)" "tcount t \<le> length (tcheck t)"
    and own: "\<And>k. k < length (tcheck t) \<Longrightarrow> tcheck t ! k \<noteq> 0 \<Longrightarrow>
            (\<exists>s \<in> seen. \<exists>j < tokens. actions ! s ! j \<noteq> 0 \<and> k = tbase t ! s + j
                \<and> tcheck t ! k = int s + 1)"
    and cell: "\<And>s j. s \<in> seen \<Longrightarrow> j < tokens \<Longrightarrow> actions ! s ! j \<noteq> 0 \<Longrightarrow>
            tcheck t ! (tbase t ! s + j) = int s + 1
            \<and> tnext t ! (tbase t ! s + j) = actions ! s ! j"
    and top: "\<And>s. s \<in> seen \<Longrightarrow> tbase t ! s + tokens \<le> tcount t"
    unfolding packed_def by blast+
  from top [OF s(1)] j have kc: "?k < tcount t" by linarith
  with l have k: "?k < length (tcheck t)" "?k < length (tnext t)" by simp_all
  have nz: "actions ! s ! j \<noteq> 0 \<longrightarrow>
            tcheck t ! ?k = int s + 1 \<and> tnext t ! ?k = actions ! s ! j"
    using cell [OF s(1) j] by blast
  have zr: "actions ! s ! j = 0 \<longrightarrow> tcheck t ! ?k \<noteq> int s + 1"
  proof
    assume a0: "actions ! s ! j = 0"
    show "tcheck t ! ?k \<noteq> int s + 1"
    proof
      assume e: "tcheck t ! ?k = int s + 1"
      then have "tcheck t ! ?k \<noteq> 0" by simp
      from own [OF k(1) this] obtain s' j' where
        o: "s' \<in> seen" "j' < tokens" "actions ! s' ! j' \<noteq> 0" "?k = tbase t ! s' + j'"
           "tcheck t ! ?k = int s' + 1"
        by blast
      from e o(5) have "s' = s" by simp
      with o(4) have "j' = j" by simp
      with o(3) \<open>s' = s\<close> a0 show False by simp
    qed
  qed
  have b: "rd (pbase (load_parser t tables)) (int s + 1) = int (tbase t ! s)"
    using rd_format_base1 [of "map int (tbase t)" s] s(2) by (simp add: load_parser_def)
  have i: "int (tbase t ! s) + (int j + 1) = int ?k + 1" by simp
  have c: "rd (pcheck (load_parser t tables)) (int ?k + 1) = tcheck t ! ?k"
    using rd_format_base1 [of "take (tcount t) (tcheck t)" ?k] kc by (simp add: load_parser_def)
  have n: "rd (pnext (load_parser t tables)) (int ?k + 1) = tnext t ! ?k"
    using rd_format_base1 [of "take (tcount t) (tnext t)" ?k] kc by (simp add: load_parser_def)
  have r1: "(rd (pcheck (load_parser t tables))
              (rd (pbase (load_parser t tables)) (int s + 1) + (int j + 1)) = int s + 1)
           = (actions ! s ! j \<noteq> 0)"
    unfolding b i c using nz zr by blast
  have r2: "decompress (load_parser t tables) (int s + 1) (int j + 1) = actions ! s ! j"
    unfolding decompress_def Let_def b i c n using nz zr by auto
  from nz zr r1 r2 show ?thesis by blast
qed

text \<open>
  C1. Packing round-trips: the packing of every state of the action matrix returns, and in
  the packed tables every (state, token) pair with a non-zero action has
  \<open>check[base[state] + token] = state\<close> (the state number from 1, as stored) and
  \<open>next[base[state] + token]\<close> equal to the action, and every pair with a zero action has
  \<open>check[base[state] + token] \<noteq> state\<close>; so decoding the tables as the runtime loads them
  gives back \<open>actions[state][token]\<close> for all pairs.
\<close>

theorem compress_parser_roundtrip:
  "\<exists>t. pack_parser actions cnt pnumber tokens = Some t
     \<and> (\<forall>s < pnumber. \<forall>j < tokens.
          (actions ! s ! j \<noteq> 0 \<longrightarrow>
             tcheck t ! (tbase t ! s + j) = int s + 1
             \<and> tnext t ! (tbase t ! s + j) = actions ! s ! j)
        \<and> (actions ! s ! j = 0 \<longrightarrow> tcheck t ! (tbase t ! s + j) \<noteq> int s + 1)
        \<and> (rd (pcheck (load_parser t tables))
              (rd (pbase (load_parser t tables)) (int s + 1) + (int j + 1)) = int s + 1)
           = (actions ! s ! j \<noteq> 0)
        \<and> decompress (load_parser t tables) (int s + 1) (int j + 1) = actions ! s ! j)"
proof -
  from pack_parser_packed [of actions cnt pnumber tokens] obtain t where
    t: "pack_parser actions cnt pnumber tokens = Some t"
       "packed actions tokens {0 ..< pnumber} t" "length (tbase t) = pnumber"
    by blast
  have "\<forall>s < pnumber. \<forall>j < tokens.
          (actions ! s ! j \<noteq> 0 \<longrightarrow>
             tcheck t ! (tbase t ! s + j) = int s + 1
             \<and> tnext t ! (tbase t ! s + j) = actions ! s ! j)
        \<and> (actions ! s ! j = 0 \<longrightarrow> tcheck t ! (tbase t ! s + j) \<noteq> int s + 1)
        \<and> (rd (pcheck (load_parser t tables))
              (rd (pbase (load_parser t tables)) (int s + 1) + (int j + 1)) = int s + 1)
           = (actions ! s ! j \<noteq> 0)
        \<and> decompress (load_parser t tables) (int s + 1) (int j + 1) = actions ! s ! j"
  proof (intro allI impI)
    fix s j assume a: "s < pnumber" "j < tokens"
    then have "s \<in> {0 ..< pnumber}" "s < length (tbase t)" using t(3) by simp_all
    from packed_roundtrip [OF t(2) this a(2)]
    show "(actions ! s ! j \<noteq> 0 \<longrightarrow>
             tcheck t ! (tbase t ! s + j) = int s + 1
             \<and> tnext t ! (tbase t ! s + j) = actions ! s ! j)
        \<and> (actions ! s ! j = 0 \<longrightarrow> tcheck t ! (tbase t ! s + j) \<noteq> int s + 1)
        \<and> (rd (pcheck (load_parser t tables))
              (rd (pbase (load_parser t tables)) (int s + 1) + (int j + 1)) = int s + 1)
           = (actions ! s ! j \<noteq> 0)
        \<and> decompress (load_parser t tables) (int s + 1) (int j + 1) = actions ! s ! j" .
  qed
  with t(1) show ?thesis by blast
qed

text \<open>An action matrix of four states and three tokens, and its packed tables.\<close>

definition ex_actions :: "int list list" where
  "ex_actions = [[1, 5, 0], [7, 0, 8], [0, 2, 9], [0, 0, 1]]"

definition ex_packed :: ptables where
  "ex_packed = \<lparr>tbase = [0, 2, 4, 1], tcheck = [1, 1, 2, 4, 2, 3, 3, 0, 0, 0, 0, 0],
     tnext = [1, 5, 7, 1, 8, 2, 9, 0, 0, 0, 0, 0], tcount = 7\<rparr>"

theorem compress_parser_roundtrip_witness:
  "pack_parser ex_actions [2, 2, 2, 1] 4 3 = Some ex_packed
   \<and> ex_actions ! 1 ! 0 = 7 \<and> ex_actions ! 1 ! 1 = 0
   \<and> tcheck ex_packed ! (tbase ex_packed ! 1 + 0) = 2
   \<and> tnext ex_packed ! (tbase ex_packed ! 1 + 0) = 7
   \<and> tcheck ex_packed ! (tbase ex_packed ! 1 + 1) \<noteq> 2
   \<and> decompress (load_parser ex_packed ex_tables) 2 1 = 7
   \<and> decompress (load_parser ex_packed ex_tables) 2 2 = 0"
proof -
  have e: "pack_parser ex_actions [2, 2, 2, 1] 4 3 = Some ex_packed"
    by code_simp
  have v: "ex_actions ! 1 ! 0 = 7" "ex_actions ! 1 ! 1 = 0"
    by (simp_all add: ex_actions_def)
  from compress_parser_roundtrip [of ex_actions "[2, 2, 2, 1]" 4 3 ex_tables] e
  have a: "\<forall>s < 4. \<forall>j < 3.
          (ex_actions ! s ! j \<noteq> 0 \<longrightarrow>
             tcheck ex_packed ! (tbase ex_packed ! s + j) = int s + 1
             \<and> tnext ex_packed ! (tbase ex_packed ! s + j) = ex_actions ! s ! j)
        \<and> (ex_actions ! s ! j = 0 \<longrightarrow> tcheck ex_packed ! (tbase ex_packed ! s + j) \<noteq> int s + 1)
        \<and> (rd (pcheck (load_parser ex_packed ex_tables))
              (rd (pbase (load_parser ex_packed ex_tables)) (int s + 1) + (int j + 1)) = int s + 1)
           = (ex_actions ! s ! j \<noteq> 0)
        \<and> decompress (load_parser ex_packed ex_tables) (int s + 1) (int j + 1) = ex_actions ! s ! j"
    by simp
  from a [rule_format, of 1 0] v(1)
  have r0: "tcheck ex_packed ! (tbase ex_packed ! 1 + 0) = 2"
    "tnext ex_packed ! (tbase ex_packed ! 1 + 0) = 7"
    "decompress (load_parser ex_packed ex_tables) 2 1 = 7"
    by simp_all
  from a [rule_format, of 1 1] v(2)
  have r1: "tcheck ex_packed ! (tbase ex_packed ! 1 + 1) \<noteq> 2"
    "decompress (load_parser ex_packed ex_tables) 2 2 = 0"
    by simp_all
  show ?thesis
    by (intro conjI e v r0 r1)
qed

section \<open>Decoding the packed tables\<close>

text \<open>
  A free cell of the packed tables (check 0) holds next 0: the arrays start zeroed, the grow
  loop zeroes the new half, and a row writes check and next of a cell together.
\<close>

definition free_zero :: "ptables \<Rightarrow> bool" where
  "free_zero t =
     (length (tnext t) = length (tcheck t) \<and>
      (\<forall>k < length (tcheck t). tcheck t ! k = 0 \<longrightarrow> tnext t ! k = 0))"

lemma free_zero_grow:
  assumes "free_zero t"
  shows "free_zero (t\<lparr>tcheck := tcheck t @ replicate n 0, tnext := tnext t @ replicate n 0\<rparr>)"
  using assms by (auto simp: free_zero_def nth_append)

lemma free_zero_insert:
  assumes fz: "free_zero t" and r: "i + n \<le> length (tcheck t)"
  shows "free_zero (insert_row row s i n t)"
proof -
  have l: "length (tnext t) = length (tcheck t)" using fz by (simp add: free_zero_def)
  have r': "i + n \<le> length (tnext t)" using r l by simp
  have "tnext (insert_row row s i n t) ! k = 0"
    if k: "k < length (tcheck t)" and z: "tcheck (insert_row row s i n t) ! k = 0" for k
  proof -
    have c: "tcheck (insert_row row s i n t) ! k
       = (if i \<le> k \<and> k < i + n \<and> row ! (k - i) \<noteq> 0 then int s + 1 else tcheck t ! k)"
      by (rule insert_row_check [OF r k])
    have k': "k < length (tnext t)" using k l by simp
    have x: "tnext (insert_row row s i n t) ! k
       = (if i \<le> k \<and> k < i + n \<and> row ! (k - i) \<noteq> 0 then row ! (k - i) else tnext t ! k)"
      by (rule insert_row_next [OF r' k'])
    have nw: "\<not> (i \<le> k \<and> k < i + n \<and> row ! (k - i) \<noteq> 0)"
    proof
      assume "i \<le> k \<and> k < i + n \<and> row ! (k - i) \<noteq> 0"
      then have "tcheck (insert_row row s i n t) ! k = int s + 1" using c by simp
      then show False using z by simp
    qed
    have "tcheck (insert_row row s i n t) ! k = tcheck t ! k" using c nw by simp
    then have "tcheck t ! k = 0" using z by simp
    then have "tnext t ! k = 0" using fz k by (simp add: free_zero_def)
    then show ?thesis using x nw by simp
  qed
  then show ?thesis using l insert_row_fields [of row s i n t] by (simp add: free_zero_def)
qed

lemma compress_parser_free:
  assumes p: "packed actions tokens seen t" and fz: "free_zero t"
    and c: "compress_parser actions s tokens t = Some t'"
  shows "free_zero t'"
proof -
  from p have l: "tokens \<le> length (tcheck t)" "tcount t \<le> length (tcheck t)"
    unfolding packed_def by blast+
  from grow_tables_result [OF l] obtain n where
    g: "grow_tables tokens t
          = Some (t\<lparr>tcheck := tcheck t @ replicate n 0, tnext := tnext t @ replicate n 0\<rparr>)"
    and room: "tcount t + tokens \<le> length (tcheck t) + n"
    by blast
  define t1 where "t1 = t\<lparr>tcheck := tcheck t @ replicate n 0, tnext := tnext t @ replicate n 0\<rparr>"
  define i where "i = find_base (actions ! s) (tcheck t1) tokens (tcount t1) 0"
  define t2 where "t2 = insert_row (actions ! s) s i tokens (t1\<lparr>tbase := (tbase t1)[s := i]\<rparr>)"
  have fz1: "free_zero t1" unfolding t1_def by (rule free_zero_grow [OF fz])
  then have fz1': "free_zero (t1\<lparr>tbase := (tbase t1)[s := i]\<rparr>)" by (simp add: free_zero_def)
  from find_base_spec [of 0 "tcount t1" "actions ! s" "tcheck t1" tokens]
  have "i \<le> tcount t1" by (simp add: i_def)
  then have "i + tokens \<le> length (tcheck (t1\<lparr>tbase := (tbase t1)[s := i]\<rparr>))"
    using room by (simp add: t1_def)
  then have fz2: "free_zero t2" unfolding t2_def by (rule free_zero_insert [OF fz1'])
  have "compress_parser actions s tokens t
        = Some (if tcount t2 < i + tokens then t2\<lparr>tcount := i + tokens\<rparr> else t2)"
    unfolding compress_parser_def t2_def i_def t1_def using g by (simp add: Let_def)
  then have "t' = (if tcount t2 < i + tokens then t2\<lparr>tcount := i + tokens\<rparr> else t2)"
    using c by simp
  then show ?thesis using fz2 by (simp add: free_zero_def)
qed

lemma compress_all_free:
  "packed actions tokens seen t \<Longrightarrow> free_zero t \<Longrightarrow> distinct ss \<Longrightarrow> set ss \<inter> seen = {} \<Longrightarrow>
   \<forall>s \<in> set ss. s < length (tbase t) \<Longrightarrow>
   compress_all actions tokens ss t = Some t' \<Longrightarrow> free_zero t'"
proof (induction ss arbitrary: t seen)
  case Nil
  then show ?case by simp
next
  case (Cons s ss)
  from Cons.prems have s: "s \<notin> seen" "s < length (tbase t)" by auto
  from compress_parser_step [OF Cons.prems(1) s] obtain t1 where
    t1: "compress_parser actions s tokens t = Some t1"
      "packed actions tokens (insert s seen) t1" "length (tbase t1) = length (tbase t)"
    by blast
  have fz1: "free_zero t1" by (rule compress_parser_free [OF Cons.prems(1,2) t1(1)])
  have d: "distinct ss" "set ss \<inter> insert s seen = {}" "\<forall>x \<in> set ss. x < length (tbase t1)"
    using Cons.prems t1(3) by auto
  have "compress_all actions tokens ss t1 = Some t'" using Cons.prems(6) t1(1) by simp
  from Cons.IH [OF t1(2) fz1 d this] show ?case .
qed

lemma pack_parser_free:
  assumes "pack_parser actions cnt pnumber tokens = Some t"
  shows "free_zero t"
proof -
  let ?t0 = "\<lparr>tbase = replicate pnumber 0, tcheck = replicate tokens 0,
        tnext = replicate tokens 0, tcount = 0\<rparr>"
  have p0: "packed actions tokens {} ?t0" by (simp add: packed_def)
  have f0: "free_zero ?t0" by (simp add: free_zero_def)
  from sort_parser_states [of cnt pnumber]
  have d: "distinct (sort_parser cnt pnumber)" "set (sort_parser cnt pnumber) \<inter> {} = {}"
    "\<forall>s \<in> set (sort_parser cnt pnumber). s < length (tbase ?t0)"
    by simp_all
  have "compress_all actions tokens (sort_parser cnt pnumber) ?t0 = Some t"
    using assms by (simp add: pack_parser_def)
  from compress_all_free [OF p0 f0 d this] show ?thesis .
qed

lemma packed_cell:
  assumes p: "packed actions tokens seen t" and fz: "free_zero t"
    and s: "s \<in> seen" "s < length (tbase t)" and j: "j < tokens"
  shows "rd (pbase (load_parser t tables)) (int s + 1) + (int j + 1) = int (tbase t ! s + j) + 1"
    and "rd (pcheck (load_parser t tables)) (int (tbase t ! s + j) + 1) = tcheck t ! (tbase t ! s + j)"
    and "rd (pnext (load_parser t tables)) (int (tbase t ! s + j) + 1) = tnext t ! (tbase t ! s + j)"
    and "actions ! s ! j \<noteq> 0 \<Longrightarrow>
           tcheck t ! (tbase t ! s + j) = int s + 1 \<and> tnext t ! (tbase t ! s + j) = actions ! s ! j"
    and "actions ! s ! j = 0 \<Longrightarrow>
           tcheck t ! (tbase t ! s + j) \<noteq> int s + 1
           \<and> (tcheck t ! (tbase t ! s + j) = 0 \<and> tnext t ! (tbase t ! s + j) = 0
              \<or> (\<exists>s' \<in> seen. \<exists>j' < tokens. s' \<noteq> s \<and> actions ! s' ! j' \<noteq> 0
                    \<and> tbase t ! s' + j' = tbase t ! s + j
                    \<and> tnext t ! (tbase t ! s + j) = actions ! s' ! j'))"
    and "tbase t ! s + j < length (tcheck t)"
proof -
  let ?k = "tbase t ! s + j"
  from p have l: "length (tnext t) = length (tcheck t)" "tcount t \<le> length (tcheck t)"
    and own: "\<And>k. k < length (tcheck t) \<Longrightarrow> tcheck t ! k \<noteq> 0 \<Longrightarrow>
            (\<exists>s \<in> seen. \<exists>j < tokens. actions ! s ! j \<noteq> 0 \<and> k = tbase t ! s + j
                \<and> tcheck t ! k = int s + 1)"
    and cell: "\<And>s j. s \<in> seen \<Longrightarrow> j < tokens \<Longrightarrow> actions ! s ! j \<noteq> 0 \<Longrightarrow>
            tcheck t ! (tbase t ! s + j) = int s + 1
            \<and> tnext t ! (tbase t ! s + j) = actions ! s ! j"
    and top: "\<And>s. s \<in> seen \<Longrightarrow> tbase t ! s + tokens \<le> tcount t"
    unfolding packed_def by blast+
  from top [OF s(1)] j have kc: "?k < tcount t" by linarith
  with l have k: "?k < length (tcheck t)" "?k < length (tnext t)" by simp_all
  show "?k < length (tcheck t)" by (rule k(1))
  have b: "rd (pbase (load_parser t tables)) (int s + 1) = int (tbase t ! s)"
    using rd_format_base1 [of "map int (tbase t)" s] s(2) by (simp add: load_parser_def)
  show "rd (pbase (load_parser t tables)) (int s + 1) + (int j + 1) = int ?k + 1"
    unfolding b by simp
  show "rd (pcheck (load_parser t tables)) (int ?k + 1) = tcheck t ! ?k"
    using rd_format_base1 [of "take (tcount t) (tcheck t)" ?k] kc by (simp add: load_parser_def)
  show "rd (pnext (load_parser t tables)) (int ?k + 1) = tnext t ! ?k"
    using rd_format_base1 [of "take (tcount t) (tnext t)" ?k] kc by (simp add: load_parser_def)
  show "tcheck t ! ?k = int s + 1 \<and> tnext t ! ?k = actions ! s ! j" if "actions ! s ! j \<noteq> 0"
    by (rule cell [OF s(1) j that])
  show "tcheck t ! ?k \<noteq> int s + 1
           \<and> (tcheck t ! ?k = 0 \<and> tnext t ! ?k = 0
              \<or> (\<exists>s' \<in> seen. \<exists>j' < tokens. s' \<noteq> s \<and> actions ! s' ! j' \<noteq> 0
                    \<and> tbase t ! s' + j' = ?k \<and> tnext t ! ?k = actions ! s' ! j'))"
    if a0: "actions ! s ! j = 0"
  proof (cases "tcheck t ! ?k = 0")
    case True
    then have "tnext t ! ?k = 0" using fz k(1) by (simp add: free_zero_def)
    then show ?thesis using True by simp
  next
    case False
    from own [OF k(1) False] obtain s' j' where
      o: "s' \<in> seen" "j' < tokens" "actions ! s' ! j' \<noteq> 0" "?k = tbase t ! s' + j'"
         "tcheck t ! ?k = int s' + 1"
      by blast
    have ne: "s' \<noteq> s"
    proof
      assume "s' = s"
      with o(4) have "j' = j" by simp
      with o(3) \<open>s' = s\<close> a0 show False by simp
    qed
    have n: "tnext t ! ?k = actions ! s' ! j'"
      using cell [OF o(1) o(2) o(3)] o(4) by simp
    have "tcheck t ! ?k \<noteq> int s + 1" using o(5) ne by simp
    moreover have "\<exists>s' \<in> seen. \<exists>j' < tokens. s' \<noteq> s \<and> actions ! s' ! j' \<noteq> 0
                    \<and> tbase t ! s' + j' = ?k \<and> tnext t ! ?k = actions ! s' ! j'"
      using o(1,2,3) ne o(4) n by auto
    ultimately show ?thesis by blast
  qed
qed

text \<open>
  What the two decoders return on the tables the packing tool wrote, in terms of the cell
  \<open>base[state] + token\<close> of the packed arrays.
\<close>

lemma decode_goto_cell:
  assumes p: "packed actions tokens seen t" and fz: "free_zero t"
    and s: "s \<in> seen" "s < length (tbase t)" and j: "j < tokens"
  shows "decode_goto (load_parser t tables) (int s + 1) (int j + 1) =
     (let next = tnext t ! (tbase t ! s + j) in
      if next > SHIFT_OFFSET then (SHIFT, next - SHIFT_OFFSET)
      else if next > 0 then (SHIFTREDUCE, next)
      else (ACCEPT, 0))"
  unfolding decode_goto_def packed_cell(1) [OF p fz s j] packed_cell(3) [OF p fz s j] ..


text \<open>
  The parse table of the example grammar (1: \<open>Goal \<rightarrow> S $\<close>, 2: \<open>S \<rightarrow> a S b\<close>,
  3: \<open>S \<rightarrow> \<epsilon>\<close>; tokens \<open>a\<close> 1, \<open>b\<close> 2, \<open>$\<close> 3, \<open>S\<close> 4, \<open>Goal\<close> 5) as \<^verbatim>\<open>build_table\<close> fills
  it from the four states of \<open>ex_collection\<close>, one row per state and one column per token:
  state 1 shifts \<open>a\<close> to state 3, reduces by 3 on \<open>$\<close>, goes to state 2 on \<open>S\<close> and accepts on
  \<open>Goal\<close>; state 2 shift-reduces \<open>$\<close> by 1; state 3 shifts \<open>a\<close> to state 3, reduces by 3 on
  \<open>b\<close> and goes to state 4 on \<open>S\<close>; state 4 shift-reduces \<open>b\<close> by 2. \<open>gex_count\<close> is the
  number of actions listed for each state, \<open>gex_packed\<close> the tables the packing tool makes
  of them, \<open>gex_static\<close> the tables of the grammar that are not packed, and \<open>gex_tables\<close>
  the tables the runtime loads.
\<close>

definition gex_actions :: "int list list" where
  "gex_actions =
     [[10003, 0, - 3, 10002, - 10000],
      [0, 0, 1, 0, 0],
      [10003, - 3, 0, 10004, 0],
      [0, 2, 0, 0, 0]]"

definition gex_count :: "int list" where
  "gex_count = [4, 1, 3, 1]"

definition gex_packed :: ptables where
  "gex_packed = \<lparr>tbase = [0, 5, 5, 0],
     tcheck = [1, 4, 1, 1, 1, 3, 3, 2, 3, 0, 0, 0, 0, 0, 0, 0, 0, 0, 0, 0],
     tnext = [10003, 2, - 3, 10002, - 10000, 10003, - 3, 1, 10004, 0,
              0, 0, 0, 0, 0, 0, 0, 0, 0, 0],
     tcount = 10\<rparr>"

definition gex_static :: sdt_tables where
  "gex_static =
     \<lparr> tnumber = 3, contextn = 0, defcost = 0,
       inscost = [0, 2, 3, 1], delcost = [0, 1, 1, 1],
       lhsymbol = [0, 5, 4, 4], rhslength = [0, 2, 3, 0], semantics = [0, 1, 2, 0],
       repair = build_repair 1 ex_prods ex_collection,
       pbase = [], pcheck = [], pnext = [] \<rparr>"

definition gex_tables :: sdt_tables where
  "gex_tables = load_parser gex_packed gex_static"

lemma gex_pack: "pack_parser gex_actions gex_count 4 5 = Some gex_packed"
  by code_simp

section \<open>Action decoding\<close>

text \<open>
  C9 (as amended). Goto decoding never fails: \<^verbatim>\<open>decode_goto\<close> reads \<open>pnext[pbase[s]+t]\<close>
  without looking at \<open>pcheck\<close>; the result is SHIFT (to entry - SHIFT_OFFSET) when the entry
  exceeds SHIFT_OFFSET, SHIFTREDUCE when it is positive and at most SHIFT_OFFSET, and ACCEPT
  for every non-positive entry (zero cells and reduce-encoded cells included), so the result
  is never ERROR and never REDUCE. On the tables written by the packing tool, a goto entry of
  the action matrix decodes by that rule, and an invalid goto entry (an empty cell of the
  matrix, whose \<open>pcheck\<close> cell does not name the state) is not always decoded as accept: it is
  decoded as accept when its cell of the packed arrays is free, and otherwise exactly as the
  entry of the other state that owns the cell, which is a shift or a shift-reduce when that
  entry is positive.
\<close>

theorem decode_goto_never_fails:
  "decode_goto (tables\<lparr>pcheck := c\<rparr>) s t = decode_goto tables s t
   \<and> fst (decode_goto tables s t) \<noteq> ERROR
   \<and> fst (decode_goto tables s t) \<noteq> REDUCE
   \<and> (rd (pnext tables) (rd (pbase tables) s + t) > SHIFT_OFFSET \<longrightarrow>
        decode_goto tables s t = (SHIFT, rd (pnext tables) (rd (pbase tables) s + t) - SHIFT_OFFSET))
   \<and> (0 < rd (pnext tables) (rd (pbase tables) s + t)
        \<and> rd (pnext tables) (rd (pbase tables) s + t) \<le> SHIFT_OFFSET \<longrightarrow>
        decode_goto tables s t = (SHIFTREDUCE, rd (pnext tables) (rd (pbase tables) s + t)))
   \<and> (rd (pnext tables) (rd (pbase tables) s + t) \<le> 0 \<longrightarrow>
        decode_goto tables s t = (ACCEPT, 0))
   \<and> (\<exists>p. pack_parser actions cnt pnumber tokens = Some p
        \<and> (\<forall>st < pnumber. \<forall>j < tokens.
             (actions ! st ! j > SHIFT_OFFSET \<longrightarrow>
                decode_goto (load_parser p tables) (int st + 1) (int j + 1)
                  = (SHIFT, actions ! st ! j - SHIFT_OFFSET))
           \<and> (0 < actions ! st ! j \<and> actions ! st ! j \<le> SHIFT_OFFSET \<longrightarrow>
                decode_goto (load_parser p tables) (int st + 1) (int j + 1)
                  = (SHIFTREDUCE, actions ! st ! j))
           \<and> (actions ! st ! j < 0 \<longrightarrow>
                decode_goto (load_parser p tables) (int st + 1) (int j + 1) = (ACCEPT, 0))
           \<and> (actions ! st ! j = 0 \<longrightarrow>
                rd (pcheck (load_parser p tables))
                   (rd (pbase (load_parser p tables)) (int st + 1) + (int j + 1)) \<noteq> int st + 1
                \<and> (tcheck p ! (tbase p ! st + j) = 0
                     \<and> decode_goto (load_parser p tables) (int st + 1) (int j + 1) = (ACCEPT, 0)
                   \<or> (\<exists>s' < pnumber. \<exists>j' < tokens. s' \<noteq> st \<and> actions ! s' ! j' \<noteq> 0
                        \<and> tbase p ! s' + j' = tbase p ! st + j
                        \<and> decode_goto (load_parser p tables) (int st + 1) (int j + 1)
                          = decode_goto (load_parser p tables) (int s' + 1) (int j' + 1))))))"
proof -
  have g: "decode_goto (tables\<lparr>pcheck := c\<rparr>) s t = decode_goto tables s t
   \<and> fst (decode_goto tables s t) \<noteq> ERROR
   \<and> fst (decode_goto tables s t) \<noteq> REDUCE
   \<and> (rd (pnext tables) (rd (pbase tables) s + t) > SHIFT_OFFSET \<longrightarrow>
        decode_goto tables s t = (SHIFT, rd (pnext tables) (rd (pbase tables) s + t) - SHIFT_OFFSET))
   \<and> (0 < rd (pnext tables) (rd (pbase tables) s + t)
        \<and> rd (pnext tables) (rd (pbase tables) s + t) \<le> SHIFT_OFFSET \<longrightarrow>
        decode_goto tables s t = (SHIFTREDUCE, rd (pnext tables) (rd (pbase tables) s + t)))
   \<and> (rd (pnext tables) (rd (pbase tables) s + t) \<le> 0 \<longrightarrow>
        decode_goto tables s t = (ACCEPT, 0))"
    by (simp add: decode_goto_def Let_def SHIFT_OFFSET_def)
  from pack_parser_packed [of actions cnt pnumber tokens] obtain p where
    p: "pack_parser actions cnt pnumber tokens = Some p"
       "packed actions tokens {0 ..< pnumber} p" "length (tbase p) = pnumber"
    by blast
  have fz: "free_zero p" by (rule pack_parser_free [OF p(1)])
  let ?T = "load_parser p tables"
  have cellw: "(actions ! st ! j > SHIFT_OFFSET \<longrightarrow>
                decode_goto ?T (int st + 1) (int j + 1) = (SHIFT, actions ! st ! j - SHIFT_OFFSET))
           \<and> (0 < actions ! st ! j \<and> actions ! st ! j \<le> SHIFT_OFFSET \<longrightarrow>
                decode_goto ?T (int st + 1) (int j + 1) = (SHIFTREDUCE, actions ! st ! j))
           \<and> (actions ! st ! j < 0 \<longrightarrow>
                decode_goto ?T (int st + 1) (int j + 1) = (ACCEPT, 0))
           \<and> (actions ! st ! j = 0 \<longrightarrow>
                rd (pcheck ?T) (rd (pbase ?T) (int st + 1) + (int j + 1)) \<noteq> int st + 1
                \<and> (tcheck p ! (tbase p ! st + j) = 0
                     \<and> decode_goto ?T (int st + 1) (int j + 1) = (ACCEPT, 0)
                   \<or> (\<exists>s' < pnumber. \<exists>j' < tokens. s' \<noteq> st \<and> actions ! s' ! j' \<noteq> 0
                        \<and> tbase p ! s' + j' = tbase p ! st + j
                        \<and> decode_goto ?T (int st + 1) (int j + 1)
                          = decode_goto ?T (int s' + 1) (int j' + 1))))"
    if st: "st < pnumber" and j: "j < tokens" for st j
  proof -
    have m: "st \<in> {0 ..< pnumber}" "st < length (tbase p)" using st p(3) by simp_all
    note dg = decode_goto_cell [OF p(2) fz m j, of tables]
    note pc1 = packed_cell(1) [OF p(2) fz m j, of tables]
    note pc2 = packed_cell(2) [OF p(2) fz m j, of tables]
    note pc4 = packed_cell(4) [OF p(2) fz m j]
    note pc5 = packed_cell(5) [OF p(2) fz m j]
    note pc6 = packed_cell(6) [OF p(2) fz m j]
    have nz: "decode_goto ?T (int st + 1) (int j + 1) =
        (if actions ! st ! j > SHIFT_OFFSET then (SHIFT, actions ! st ! j - SHIFT_OFFSET)
         else if actions ! st ! j > 0 then (SHIFTREDUCE, actions ! st ! j) else (ACCEPT, 0))"
      if "actions ! st ! j \<noteq> 0"
      using dg pc4 [OF that] by (simp add: Let_def)
    have z: "rd (pcheck ?T) (rd (pbase ?T) (int st + 1) + (int j + 1)) \<noteq> int st + 1
                \<and> (tcheck p ! (tbase p ! st + j) = 0
                     \<and> decode_goto ?T (int st + 1) (int j + 1) = (ACCEPT, 0)
                   \<or> (\<exists>s' < pnumber. \<exists>j' < tokens. s' \<noteq> st \<and> actions ! s' ! j' \<noteq> 0
                        \<and> tbase p ! s' + j' = tbase p ! st + j
                        \<and> decode_goto ?T (int st + 1) (int j + 1)
                          = decode_goto ?T (int s' + 1) (int j' + 1)))"
      if a0: "actions ! st ! j = 0"
    proof -
      have c: "rd (pcheck ?T) (rd (pbase ?T) (int st + 1) + (int j + 1)) \<noteq> int st + 1"
        unfolding pc1 pc2 using pc5 [OF a0] by blast
      show ?thesis
      proof (cases "tcheck p ! (tbase p ! st + j) = 0")
        case True
        then have "tnext p ! (tbase p ! st + j) = 0" using fz pc6
          by (simp add: free_zero_def)
        then have "decode_goto ?T (int st + 1) (int j + 1) = (ACCEPT, 0)"
          using dg by (simp add: Let_def SHIFT_OFFSET_def)
        then show ?thesis using c True by blast
      next
        case False
        then obtain s' j' where
          o: "s' \<in> {0 ..< pnumber}" "j' < tokens" "s' \<noteq> st" "actions ! s' ! j' \<noteq> 0"
             "tbase p ! s' + j' = tbase p ! st + j"
          using pc5 [OF a0] by blast
        have m': "s' < length (tbase p)" using o(1) p(3) by simp
        have e: "decode_goto ?T (int st + 1) (int j + 1) = decode_goto ?T (int s' + 1) (int j' + 1)"
          unfolding decode_goto_cell [OF p(2) fz o(1) m' o(2), of tables] dg o(5) ..
        have lt: "s' < pnumber" using o(1) by simp
        have "\<exists>s' < pnumber. \<exists>j' < tokens. s' \<noteq> st \<and> actions ! s' ! j' \<noteq> 0
                        \<and> tbase p ! s' + j' = tbase p ! st + j
                        \<and> decode_goto ?T (int st + 1) (int j + 1)
                          = decode_goto ?T (int s' + 1) (int j' + 1)"
          using lt o(2) o(3) o(4) o(5) e by blast
        then show ?thesis using c by blast
      qed
    qed
    have so: "0 < SHIFT_OFFSET" by (simp add: SHIFT_OFFSET_def)
    have c1: "actions ! st ! j > SHIFT_OFFSET \<longrightarrow>
                decode_goto ?T (int st + 1) (int j + 1) = (SHIFT, actions ! st ! j - SHIFT_OFFSET)"
      using nz so by simp
    have c2: "0 < actions ! st ! j \<and> actions ! st ! j \<le> SHIFT_OFFSET \<longrightarrow>
                decode_goto ?T (int st + 1) (int j + 1) = (SHIFTREDUCE, actions ! st ! j)"
      using nz by simp
    have c3: "actions ! st ! j < 0 \<longrightarrow>
                decode_goto ?T (int st + 1) (int j + 1) = (ACCEPT, 0)"
      using nz so by simp
    show ?thesis using c1 c2 c3 z by blast
  qed
  show ?thesis using g p(1) cellw by blast
qed

theorem decode_goto_never_fails_witness:
  "pack_parser gex_actions gex_count 4 5 = Some gex_packed
   \<and> gex_actions ! 0 ! 3 = 10002 \<and> decode_goto gex_tables 1 4 = (SHIFT, 2)
   \<and> gex_actions ! 0 ! 4 = - 10000 \<and> decode_goto gex_tables 1 5 = (ACCEPT, 0)
   \<and> gex_actions ! 2 ! 3 = 10004 \<and> decode_goto gex_tables 3 4 = (SHIFT, 4)
   \<and> gex_actions ! 3 ! 3 = 0
   \<and> rd (pcheck gex_tables) (rd (pbase gex_tables) 4 + 4) \<noteq> 4
   \<and> decode_goto (gex_tables\<lparr>pcheck := []\<rparr>) 4 4 = decode_goto gex_tables 4 4
   \<and> fst (decode_goto gex_tables 4 4) \<noteq> ERROR"
proof -
  note t = decode_goto_never_fails [where actions = gex_actions and cnt = gex_count
      and pnumber = 4 and tokens = 5 and tables = gex_static and s = 4 and t = 4 and c = "[]"]
  have v: "gex_actions ! 0 ! 3 = 10002" "gex_actions ! 0 ! 4 = - 10000"
    "gex_actions ! 2 ! 3 = 10004" "gex_actions ! 3 ! 3 = 0"
    by (simp_all add: gex_actions_def)
  from t gex_pack
  have a: "\<forall>st < 4. \<forall>j < 5.
             (gex_actions ! st ! j > SHIFT_OFFSET \<longrightarrow>
                decode_goto gex_tables (int st + 1) (int j + 1)
                  = (SHIFT, gex_actions ! st ! j - SHIFT_OFFSET))
           \<and> (0 < gex_actions ! st ! j \<and> gex_actions ! st ! j \<le> SHIFT_OFFSET \<longrightarrow>
                decode_goto gex_tables (int st + 1) (int j + 1)
                  = (SHIFTREDUCE, gex_actions ! st ! j))
           \<and> (gex_actions ! st ! j < 0 \<longrightarrow>
                decode_goto gex_tables (int st + 1) (int j + 1) = (ACCEPT, 0))
           \<and> (gex_actions ! st ! j = 0 \<longrightarrow>
                rd (pcheck gex_tables)
                   (rd (pbase gex_tables) (int st + 1) + (int j + 1)) \<noteq> int st + 1)"
    unfolding gex_tables_def by simp
  from a [rule_format, of 0 3] v(1)
  have r1: "decode_goto gex_tables 1 4 = (SHIFT, 2)" by (simp add: SHIFT_OFFSET_def)
  from a [rule_format, of 0 4] v(2)
  have r2: "decode_goto gex_tables 1 5 = (ACCEPT, 0)" by simp
  from a [rule_format, of 2 3] v(3)
  have r3: "decode_goto gex_tables 3 4 = (SHIFT, 4)" by (simp add: SHIFT_OFFSET_def)
  from a [rule_format, of 3 3] v(4)
  have r4: "rd (pcheck gex_tables) (rd (pbase gex_tables) 4 + 4) \<noteq> 4" by simp
  have l: "load_parser gex_packed gex_tables = gex_tables"
    by (simp add: gex_tables_def load_parser_def)
  from decode_goto_never_fails [where tables = gex_tables and s = 4 and t = 4 and c = "[]"
      and actions = gex_actions and cnt = gex_count and pnumber = 4 and tokens = 5]
  have r5: "decode_goto (gex_tables\<lparr>pcheck := []\<rparr>) 4 4 = decode_goto gex_tables 4 4"
    and r6: "fst (decode_goto gex_tables 4 4) \<noteq> ERROR"
    by blast+
  show ?thesis by (intro conjI gex_pack v r1 r2 r3 r4 r5 r6)
qed

text \<open>
  The claim as first stated ends with ``an invalid goto entry is silently decoded as
  accept''. In the packed tables of the example grammar the entry of state 2 and token \<open>S\<close>
  is empty in the action matrix and its check cell names state 3, not state 2; it is decoded
  as the shift to state 4 that state 3 stored in that cell.
\<close>

theorem decode_goto_invalid_counterexample:
  "pack_parser gex_actions gex_count 4 5 = Some gex_packed
   \<and> gex_actions ! 1 ! 3 = 0
   \<and> rd (pcheck gex_tables) (rd (pbase gex_tables) 2 + 4) = 3
   \<and> rd (pcheck gex_tables) (rd (pbase gex_tables) 2 + 4) \<noteq> 2
   \<and> decode_goto gex_tables 2 4 = (SHIFT, 4)
   \<and> fst (decode_goto gex_tables 2 4) \<noteq> ACCEPT"
proof -
  have e: "rd (pbase gex_tables) 2 = 5" "rd (pcheck gex_tables) 9 = 3" "rd (pnext gex_tables) 9 = 10004"
    by (simp_all add: gex_tables_def load_parser_def format_base1_def rd_def gex_packed_def)
  have d: "decode_goto gex_tables 2 4 = (SHIFT, 4)"
    by (simp add: decode_goto_def e SHIFT_OFFSET_def)
  have v: "gex_actions ! 1 ! 3 = 0" by (simp add: gex_actions_def)
  show ?thesis using gex_pack v e d by simp
qed




section \<open>Runtime driver state (lib/parser.c, parser\_definitions.h)\<close>

text \<open>
  A \<^verbatim>\<open>location\<close> is a pointer to an input buffer and an offset into it. Buffers form a
  chain numbered by their \<^verbatim>\<open>order\<close> field from 0, so a buffer pointer is modelled by that
  number, \<open>None\<close> being the NULL pointer.
\<close>

record location =
  buffer :: "nat option"
  offset :: nat

record errorentry =
  point :: location
  last_point :: location
  message :: "string option"

record tokenentry =
  tk_token :: int
  tk_symbol :: "string option"
  tk_locus :: location
  tk_where :: location

record parseentry =
  pe_state :: int
  pe_where :: location
  pe_token :: int
  pe_symbol :: "string option"

record reduceentry =
  re_number :: int
  re_pointer :: int
  re_state :: int

text \<open>
  The input file: the chain of buffers read so far (\<open>buffers ! k\<close> holds the
  \<^verbatim>\<open>count\<close> characters of the buffer of order \<open>k\<close>, the last one being
  \<^verbatim>\<open>bufferend\<close>), the \<^verbatim>\<open>endfile\<close> flag, and the results of the future
  \<^verbatim>\<open>read\<close> calls on the file descriptor (\<open>pending\<close>: each element is what one call can
  deliver at most; no element or an empty one is end of file).
\<close>

record inputfile =
  buffers :: "string list"
  endfile :: bool
  pending :: "string list"


text \<open>
  What the program does that is visible from outside: calls of the user's semantic routine
  \<^verbatim>\<open>(*tables->action)(tables, n)\<close>, \<^verbatim>\<open>free\<close> of a symbol string, a source line written
  to the listing (identified by the location where it starts) and an error message
  written under it. The layout of the listing (line-number prefix, caret column, blank
  separator lines) is left out.
\<close>

datatype event =
    Call int
  | Free "string option"
  | PrintLine location
  | PrintError errorentry


record runtime =
  parstack :: "parseentry list"
  redqueue :: "reduceentry list"
  tknqueue :: "tokenentry list"
  msgqueue :: "errorentry list"
  unwritten :: location
  lineno :: int
  listing :: bool
  infile :: inputfile
  events :: "event list"

subsection \<open>Reading the input (read\_buffer, write\_line)\<close>

text \<open>
  \<^verbatim>\<open>where->buffer->count\<close> and \<^verbatim>\<open>where->buffer->next\<close>. Dereferencing a pointer that is
  NULL or outside the chain is undefined in C; the model reads a count of 0 and no successor
  there.
\<close>

definition border :: "location \<Rightarrow> nat" where
  "border wh = the (buffer wh)"

definition bcount :: "inputfile \<Rightarrow> location \<Rightarrow> nat" where
  "bcount inp wh =
     (case buffer wh of None \<Rightarrow> 0
      | Some b \<Rightarrow> if b < length (buffers inp) then length (buffers inp ! b) else 0)"

definition has_next :: "inputfile \<Rightarrow> location \<Rightarrow> bool" where
  "has_next inp wh = (case buffer wh of None \<Rightarrow> False | Some b \<Rightarrow> Suc b < length (buffers inp))"































text \<open>
  Well-formed input: every buffer of the chain but the last holds characters (a buffer is
  appended only when the last one is full), and a location points into the chain.
\<close>

definition wf_input :: "inputfile \<Rightarrow> bool" where
  "wf_input inp = list_all (\<lambda>b. b \<noteq> []) (butlast (buffers inp))"

definition valid_loc :: "inputfile \<Rightarrow> location \<Rightarrow> bool" where
  "valid_loc inp wh = (case buffer wh of None \<Rightarrow> False | Some b \<Rightarrow> b < length (buffers inp))"

























text \<open>
  What the loops that write lines need to come to an end: the input is well formed,
  \<^verbatim>\<open>unwritten\<close> and the token's line start \<open>locus\<close> point into the chain, \<open>locus\<close> is not
  beyond the characters of its buffer, and when \<^verbatim>\<open>unwritten\<close> is at the end of its buffer
  \<open>locus\<close> is not in a later buffer.
\<close>

definition lines_inv :: "location \<Rightarrow> runtime \<Rightarrow> bool" where
  "lines_inv locus st =
     (wf_input (infile st) \<and> valid_loc (infile st) (unwritten st) \<and> valid_loc (infile st) locus \<and>
      offset locus \<le> bcount (infile st) locus \<and>
      (\<not> bcount (infile st) (unwritten st) \<le> offset (unwritten st) \<or>
       border locus \<le> border (unwritten st)))"








subsection \<open>Delayed reduces and the shift of a terminal (perform\_reduces, parse\_input)\<close>

















lemma lines_inv_frame [simp]:
  "lines_inv locus (st\<lparr>parstack := ps\<rparr>) = lines_inv locus st"
  "lines_inv locus (st\<lparr>redqueue := rq\<rparr>) = lines_inv locus st"
  "lines_inv locus (st\<lparr>events := ev\<rparr>) = lines_inv locus st"
  by (simp_all add: lines_inv_def)









section \<open>Error repair (lib/parser.c)\<close>




subsection \<open>Error messages (enqueue\_error, record\_error)\<close>

text \<open>
  The loop of \<^verbatim>\<open>enqueue_error\<close> that moves the messages lying after the new one up by one
  place; its result is the index where the new message goes.
\<close>

function enqueue_pos :: "errorentry list \<Rightarrow> location \<Rightarrow> nat \<Rightarrow> nat" where
  "enqueue_pos q pt i =
     (if 0 < i \<and> (border pt < border (point (q ! (i - 1))) \<or>
                  border (point (q ! (i - 1))) = border pt \<and> offset pt < offset (point (q ! (i - 1))))
      then enqueue_pos q pt (i - 1)
      else i)"
  by pat_completeness auto

termination enqueue_pos
  by (relation "measure (\<lambda>(q, pt, i). i)") auto

declare enqueue_pos.simps [simp del]

definition enqueue_error :: "runtime \<Rightarrow> location \<Rightarrow> string option \<Rightarrow> runtime" where
  "enqueue_error st pt msg =
     (let q = msgqueue st;
          new = \<lparr>point = pt, last_point = pt, message = msg\<rparr>
      in if q = [] then st\<lparr>msgqueue := [new]\<rparr>
         else
           (let w1 = (last_point (last q))\<lparr>offset := Suc (offset (last_point (last q)))\<rparr>;
                w2 = (if bcount (infile st) w1 \<le> offset w1
                      then \<lparr>buffer = (if has_next (infile st) w1 then Some (Suc (border w1)) else None),
                            offset = 0\<rparr>
                      else w1)
            in if msg = None \<and> message (last q) = None \<and> buffer pt = buffer w2 \<and> offset pt = offset w2
               then st\<lparr>msgqueue := butlast q @ [(last q)\<lparr>last_point := pt\<rparr>]\<rparr>
               else (let i = enqueue_pos q pt (length q)
                     in st\<lparr>msgqueue := take i q @ [new] @ drop i q\<rparr>)))"


subsection \<open>The continuation (error\_value, build\_continuation)\<close>














subsection \<open>The start of repair\_error\<close>





lemma enqueue_error_frame:
  "infile (enqueue_error st pt msg) = infile st \<and> unwritten (enqueue_error st pt msg) = unwritten st
   \<and> tknqueue (enqueue_error st pt msg) = tknqueue st
   \<and> parstack (enqueue_error st pt msg) = parstack st
   \<and> redqueue (enqueue_error st pt msg) = redqueue st
   \<and> events (enqueue_error st pt msg) = events st
   \<and> listing (enqueue_error st pt msg) = listing st"
  by (simp add: enqueue_error_def Let_def)


lemma lines_inv_enqueue [simp]:
  "lines_inv locus (enqueue_error st pt msg) = lines_inv locus st"
  using enqueue_error_frame [of st pt msg] by (simp add: lines_inv_def)






definition nex_actions :: "int list list" where
  "nex_actions =
     [[10003, 3, 0, 0, 10002, 0, - 10000],
      [0, 0, 0, 1, 0, 0, 0],
      [0, 0, 0, 0, 0, 10004, 0],
      [0, 0, 4, - 2, 0, 0, 0]]"

definition nex_count :: "int list" where
  "nex_count = [4, 1, 1, 2]"

definition nex_packed :: ptables where
  "nex_packed = \<lparr>tbase = [0, 2, 2, 0],
     tcheck = [1, 1, 4, 4, 1, 2, 1, 3, 0, 0, 0, 0, 0, 0, 0, 0, 0, 0, 0, 0, 0, 0, 0, 0, 0, 0, 0, 0],
     tnext = [10003, 3, 4, - 2, 10002, 1, - 10000, 10004, 0, 0, 0, 0, 0, 0, 0, 0, 0, 0, 0, 0,
              0, 0, 0, 0, 0, 0, 0, 0],
     tcount = 9\<rparr>"


lemma nex_pack: "pack_parser nex_actions nex_count 4 7 = Some nex_packed"
  by code_simp












end
